theory Spec2Isabelle
  imports Main
begin

section \<open>Data model\<close>

text \<open>
  The catalog generator of \<^verbatim>\<open>Data-Config/generate_api_catalog.py\<close> works on the
  structures that \<^verbatim>\<open>json.load\<close> returns. A Python \<^verbatim>\<open>dict\<close> keeps its keys in insertion
  order, and the generator iterates over dictionaries, so a dictionary is an
  association list in iteration order; a well-formed one has distinct keys. A string
  is the list of the 8-bit characters of its UTF-8 form. JSON values of the fields the
  generator reads are taken to be strings, and a function-identifier list is a list of
  strings.
\<close>

type_synonym 'v dict = "(string \<times> 'v) list"

text \<open>\<^verbatim>\<open>d.get(k)\<close>: the value under \<open>k\<close>, or \<^verbatim>\<open>None\<close>.\<close>

definition dict_get :: "'v dict \<Rightarrow> string \<Rightarrow> 'v option" where
  "dict_get d k = map_of d k"

text \<open>\<^verbatim>\<open>d.get(k, default)\<close>.\<close>

definition get_default :: "'v dict \<Rightarrow> string \<Rightarrow> 'v \<Rightarrow> 'v" where
  "get_default d k dflt = (case map_of d k of Some v \<Rightarrow> v | None \<Rightarrow> dflt)"

text \<open>\<^verbatim>\<open>k in d\<close>.\<close>

definition dict_contains :: "string \<Rightarrow> 'v dict \<Rightarrow> bool" where
  "dict_contains k d = (map_of d k \<noteq> None)"

text \<open>
  \<^verbatim>\<open>d[k] = v\<close>: an existing key keeps its position and takes the new value, a new key
  goes to the end.
\<close>

fun dict_set :: "string \<Rightarrow> 'v \<Rightarrow> 'v dict \<Rightarrow> 'v dict" where
  "dict_set k v [] = [(k, v)]"
| "dict_set k v (p # d) = (if fst p = k then (k, v) # d else p # dict_set k v d)"

text \<open>A service definition and a catalog row are JSON objects with string values.\<close>

type_synonym service = "string dict"
type_synonym api_entry = "string dict"

text \<open>
  The catalog is \<^verbatim>\<open>{"REST": {}, "SOAP": {}}\<close>: one dictionary of groups for each of the
  two categories, a group being the list of rows under a group key.
\<close>

datatype category = REST | SOAP

type_synonym catalog = "category \<Rightarrow> api_entry list dict"

text \<open>The state of the builder: the catalog under construction and the processed set.\<close>

record builder =
  catalog :: catalog
  processed_services :: "string set"

section \<open>String operations of the Python library\<close>

text \<open>
  \<^verbatim>\<open>str.lower()\<close>. On a string of ASCII characters it turns the letters A to Z into
  a to z and leaves every other character as it is. On any other string its result
  comes from the Unicode tables of the Python interpreter, which are no part of this
  program: that function is the parameter \<open>unicode_lower\<close> of \<open>lower\<close> and of
  every definition that lower-cases a tag, and all properties are proved for every such
  function. A string is the UTF-8 form of the Python string, so the ASCII strings are
  those whose characters are all below 128; concatenation, \<^verbatim>\<open>startswith\<close>, the search
  for a slash or a dot and comparison give the same result on that form.
\<close>

definition lower_char :: "char \<Rightarrow> char" where
  "lower_char c =
     (let n = (of_char c :: nat) in if 65 \<le> n \<and> n \<le> 90 then char_of (n + 32) else c)"

definition is_ascii :: "string \<Rightarrow> bool" where
  "is_ascii s = list_all (\<lambda>c. (of_char c :: nat) < 128) s"

definition lower :: "(string \<Rightarrow> string) \<Rightarrow> string \<Rightarrow> string" where
  "lower unicode_lower s = (if is_ascii s then map lower_char s else unicode_lower s)"

text \<open>\<^verbatim>\<open>s.startswith(p)\<close>.\<close>

definition startswith :: "string \<Rightarrow> string \<Rightarrow> bool" where
  "startswith s p = (take (length p) s = p)"

text \<open>
  \<^verbatim>\<open>s.rsplit(sep, 1)\<close>: the string cut at the last \<open>sep\<close> into two parts, or the
  string alone when it has no \<open>sep\<close>.
\<close>

definition rsplit1 :: "char \<Rightarrow> string \<Rightarrow> string list" where
  "rsplit1 sep s =
     (if sep \<in> set s
      then [rev (tl (dropWhile (\<lambda>c. c \<noteq> sep) (rev s))), rev (takeWhile (\<lambda>c. c \<noteq> sep) (rev s))]
      else [s])"

section \<open>Registry construction\<close>

text \<open>
  \<^verbatim>\<open>convert_services_to_dict\<close> (lines 13 to 20). The test \<^verbatim>\<open>if api_name:\<close> is false for
  an absent name and for the empty string. \<open>add_service\<close> is the body of the loop
  (lines 17 to 19).
\<close>

definition add_service :: "service \<Rightarrow> service dict \<Rightarrow> service dict" where
  "add_service service services_dict =
     (case dict_get service ''API Name'' of
        None \<Rightarrow> services_dict
      | Some api_name \<Rightarrow>
          if api_name \<noteq> [] then dict_set api_name service services_dict
          else services_dict)"

definition convert_services_to_dict :: "service list \<Rightarrow> service dict" where
  "convert_services_to_dict services_array = fold add_service services_array []"

section \<open>Matcher\<close>

text \<open>\<^verbatim>\<open>find_matching_services\<close> (lines 22 to 38).\<close>

definition find_matching_services :: "string \<Rightarrow> service dict \<Rightarrow> (string \<times> service) list" where
  "find_matching_services service_name services_dict =
     (case dict_get services_dict service_name of
        Some service_info \<Rightarrow> [(service_name, service_info)]
      | None \<Rightarrow>
          fold (\<lambda>(api_name, service_info) matches.
                  if startswith api_name (service_name @ '' '')
                  then matches @ [(api_name, service_info)]
                  else matches)
               services_dict [])"

section \<open>Validator\<close>

text \<open>
  \<^verbatim>\<open>validate_keys\<close> (lines 40 to 56). The loop of lines 42 to 47 builds the list of
  missing keys; the function returns whether that list is empty. What it prints is not
  part of the model.
\<close>

definition missing_keys :: "string list dict \<Rightarrow> service dict \<Rightarrow> string list" where
  "missing_keys service_function_ids services_dict =
     fold (\<lambda>key missing.
             if find_matching_services key services_dict = [] then missing @ [key]
             else missing)
          (map fst service_function_ids) []"

definition validate_keys :: "string list dict \<Rightarrow> service dict \<Rightarrow> bool" where
  "validate_keys service_function_ids services_dict =
     (if missing_keys service_function_ids services_dict \<noteq> [] then False else True)"

section \<open>Schema path rewriter\<close>

text \<open>
  Lines 113 to 137, the computation of \<^verbatim>\<open>modified_schema\<close> from the schema location
  of the service and one function identifier. Both uses of \<^verbatim>\<open>rsplit\<close> are guarded by
  a membership test, so both parts exist where they are read.
\<close>

definition modified_schema :: "string \<Rightarrow> string \<Rightarrow> string" where
  "modified_schema original_schema function_id =
     (if original_schema \<noteq> [] then
        (let (path_part, filename) =
               (if CHR ''/'' \<in> set original_schema
                then (let parts = rsplit1 CHR ''/'' original_schema in (parts ! 0, parts ! 1))
                else ('''', original_schema));
             new_filename =
               (if CHR ''.'' \<in> set filename
                then (let parts = rsplit1 CHR ''.'' filename
                      in (parts ! 0) @ ''-'' @ function_id @ ''.'' @ (parts ! 1))
                else filename @ ''-'' @ function_id)
         in if path_part \<noteq> [] then path_part @ ''/'' @ new_filename else new_filename)
      else '''')"

section \<open>Catalog builder\<close>

text \<open>Lines 87 to 93 and 156 to 161: the category of a lower-cased tag.\<close>

definition category_of :: "string \<Rightarrow> category" where
  "category_of tag =
     (if tag = ''rest'' then REST else if tag = ''soap'' then SOAP else REST)"

text \<open>
  \<^verbatim>\<open>catalog[category][service_name].append(api_entry)\<close>. Every call follows the
  initialisation of the group (lines 96 to 97 and 164 to 165), so the group exists and
  the \<^verbatim>\<open>KeyError\<close> of a missing group cannot arise; the model leaves the catalog
  unchanged there.
\<close>

definition append_entry :: "category \<Rightarrow> string \<Rightarrow> api_entry \<Rightarrow> catalog \<Rightarrow> catalog" where
  "append_entry category service_name api_entry cat =
     cat(category :=
       (case dict_get (cat category) service_name of
          Some apis \<Rightarrow> dict_set service_name (apis @ [api_entry]) (cat category)
        | None \<Rightarrow> cat category))"

text \<open>Lines 96 to 97 and 164 to 165: create the group when the category lacks it.\<close>

definition init_group :: "category \<Rightarrow> string \<Rightarrow> catalog \<Rightarrow> catalog" where
  "init_group category service_name cat =
     (if \<not> dict_contains service_name (cat category)
      then cat(category := dict_set service_name [] (cat category))
      else cat)"

text \<open>Lines 79 to 147: the body of the loop over the matches of one key.\<close>

definition process_match ::
  "(string \<Rightarrow> string) \<Rightarrow> string \<Rightarrow> string list \<Rightarrow> string \<times> service \<Rightarrow> builder \<Rightarrow> builder" where
  "process_match unicode_lower service_name function_ids m st =
     (case m of (matched_service_name, service_info) \<Rightarrow>
        let processed = insert matched_service_name (processed_services st);
            tag = lower unicode_lower (get_default service_info ''tag'' '''');
            category = category_of tag;
            cat0 = init_group category service_name (catalog st);
            cat1 =
              (if function_ids = [] then
                 append_entry category service_name
                   [(''API Name'', matched_service_name),
                    (''Url'', get_default service_info ''Url'' ''''),
                    (''Schema Location'', get_default service_info ''Schema Location'' ''''),
                    (''tag'', tag)]
                   cat0
               else
                 fold (\<lambda>function_id c.
                         append_entry category service_name
                           [(''API Name'', matched_service_name @ '' '' @ function_id),
                            (''Url'', get_default service_info ''Url'' ''''),
                            (''Schema Location'',
                               modified_schema
                                 (get_default service_info ''Schema Location'' '''')
                                 function_id),
                            (''tag'', tag)]
                           c)
                      function_ids cat0)
        in \<lparr>catalog = cat1, processed_services = processed\<rparr>)"

text \<open>Lines 70 to 147: one key of the mapping; a key without matches is skipped.\<close>

definition process_key :: "(string \<Rightarrow> string) \<Rightarrow> service dict \<Rightarrow> string \<times> string list \<Rightarrow> builder \<Rightarrow> builder" where
  "process_key unicode_lower services_dict item st =
     (case item of (service_name, function_ids) \<Rightarrow>
        let matches = find_matching_services service_name services_dict
        in if matches = [] then st
           else fold (process_match unicode_lower service_name function_ids) matches st)"

text \<open>Lines 61 to 147: the first pass, over the mapping in its order.\<close>

definition first_pass :: "(string \<Rightarrow> string) \<Rightarrow> string list dict \<Rightarrow> service dict \<Rightarrow> builder" where
  "first_pass unicode_lower service_function_ids services_dict =
     fold (process_key unicode_lower services_dict) service_function_ids
       \<lparr>catalog = (\<lambda>_. []), processed_services = {}\<rparr>"

text \<open>Lines 150 to 175: the body of the second loop, for one service of the registry.\<close>

definition process_unmapped :: "(string \<Rightarrow> string) \<Rightarrow> string set \<Rightarrow> string \<times> service \<Rightarrow> catalog \<Rightarrow> catalog" where
  "process_unmapped unicode_lower processed item cat =
     (case item of (service_name, service_info) \<Rightarrow>
        if service_name \<notin> processed then
          (let tag = lower unicode_lower (get_default service_info ''tag'' '''');
               category = category_of tag;
               cat0 = init_group category service_name cat
           in append_entry category service_name
                [(''API Name'', service_name),
                 (''Url'', get_default service_info ''Url'' ''''),
                 (''Schema Location'', get_default service_info ''Schema Location'' ''''),
                 (''tag'', tag)]
                cat0)
        else cat)"

definition second_pass :: "(string \<Rightarrow> string) \<Rightarrow> service dict \<Rightarrow> builder \<Rightarrow> catalog" where
  "second_pass unicode_lower services_dict st =
     fold (process_unmapped unicode_lower (processed_services st)) services_dict (catalog st)"

text \<open>
  \<^verbatim>\<open>generate_api_catalog\<close> (lines 58 to 175): the catalog that is then written to the
  output file.
\<close>

definition generate_api_catalog :: "(string \<Rightarrow> string) \<Rightarrow> string list dict \<Rightarrow> service dict \<Rightarrow> catalog" where
  "generate_api_catalog unicode_lower service_function_ids services_dict =
     second_pass unicode_lower services_dict (first_pass unicode_lower service_function_ids services_dict)"

text \<open>Lines 182 to 188: the number of rows of a category, and of the catalog.\<close>

definition api_count :: "api_entry list dict \<Rightarrow> nat" where
  "api_count groups = sum_list (map (\<lambda>(name, apis). length apis) groups)"

definition total_apis :: "catalog \<Rightarrow> nat" where
  "total_apis cat = api_count (cat REST) + api_count (cat SOAP)"

section \<open>Notions used to state the properties\<close>

text \<open>
  The row that lines 102 to 107 and 168 to 173 build for a service without function
  identifier, and the row that lines 139 to 144 build for one function identifier.
\<close>

definition plain_entry :: "(string \<Rightarrow> string) \<Rightarrow> string \<Rightarrow> service \<Rightarrow> api_entry" where
  "plain_entry unicode_lower name info =
     [(''API Name'', name),
      (''Url'', get_default info ''Url'' ''''),
      (''Schema Location'', get_default info ''Schema Location'' ''''),
      (''tag'', lower unicode_lower (get_default info ''tag'' ''''))]"

definition expanded_entry :: "(string \<Rightarrow> string) \<Rightarrow> string \<Rightarrow> service \<Rightarrow> string \<Rightarrow> api_entry" where
  "expanded_entry unicode_lower name info function_id =
     [(''API Name'', name @ '' '' @ function_id),
      (''Url'', get_default info ''Url'' ''''),
      (''Schema Location'',
         modified_schema (get_default info ''Schema Location'' '''') function_id),
      (''tag'', lower unicode_lower (get_default info ''tag'' ''''))]"

text \<open>The rows that one match of a key contributes, in the order they are appended.\<close>

definition entries_for :: "(string \<Rightarrow> string) \<Rightarrow> string \<Rightarrow> service \<Rightarrow> string list \<Rightarrow> api_entry list" where
  "entries_for unicode_lower name info function_ids =
     (if function_ids = [] then [plain_entry unicode_lower name info]
      else map (expanded_entry unicode_lower name info) function_ids)"

text \<open>The category of a service, as lines 84 to 93 compute it from its tag.\<close>

definition service_category :: "(string \<Rightarrow> string) \<Rightarrow> service \<Rightarrow> category" where
  "service_category unicode_lower info = category_of (lower unicode_lower (get_default info ''tag'' ''''))"

text \<open>
  The catalog with the rows \<open>es\<close> added at the end of group \<open>k\<close> of category \<open>c\<close>,
  the group being created when the category lacks it.
\<close>

definition extend_group :: "category \<Rightarrow> string \<Rightarrow> api_entry list \<Rightarrow> catalog \<Rightarrow> catalog" where
  "extend_group c k es cat = cat(c := dict_set k (get_default (cat c) k [] @ es) (cat c))"

text \<open>
  Group \<open>k\<close> of category \<open>c\<close> holds the rows \<open>es\<close>, next to each other and in
  this order.
\<close>

definition has_rows :: "catalog \<Rightarrow> category \<Rightarrow> string \<Rightarrow> api_entry list \<Rightarrow> bool" where
  "has_rows cat c k es = (\<exists>pre post. dict_get (cat c) k = Some (pre @ es @ post))"

text \<open>Every row of the catalog satisfies \<open>P\<close>.\<close>

definition all_rows :: "(api_entry \<Rightarrow> bool) \<Rightarrow> catalog \<Rightarrow> bool" where
  "all_rows P cat = (\<forall>c. \<forall>g \<in> set (cat c). \<forall>e \<in> set (snd g). P e)"

text \<open>
  The row \<open>e\<close> is one that the builder makes from the service \<open>p\<close>: its plain row, or
  its row for the function identifier that follows the name and a space in the API
  name of \<open>e\<close>.
\<close>

definition from_service :: "(string \<Rightarrow> string) \<Rightarrow> string \<times> service \<Rightarrow> api_entry \<Rightarrow> bool" where
  "from_service unicode_lower p e =
     (e = plain_entry unicode_lower (fst p) (snd p)
      \<or> (case dict_get e ''API Name'' of
            Some a \<Rightarrow> startswith a (fst p @ '' '')
                      \<and> e = expanded_entry unicode_lower (fst p) (snd p) (drop (length (fst p) + 1) a)
          | None \<Rightarrow> False))"

definition from_registry :: "(string \<Rightarrow> string) \<Rightarrow> service dict \<Rightarrow> api_entry \<Rightarrow> bool" where
  "from_registry unicode_lower d e = (\<exists>p \<in> set d. from_service unicode_lower p e)"

text \<open>The catalog refers to the service \<open>p\<close>: one of its rows is made from \<open>p\<close>.\<close>

definition references :: "(string \<Rightarrow> string) \<Rightarrow> catalog \<Rightarrow> string \<times> service \<Rightarrow> bool" where
  "references unicode_lower cat p = (\<exists>g \<in> set (cat REST @ cat SOAP). \<exists>e \<in> set (snd g). from_service unicode_lower p e)"

text \<open>
  The builder appends one row at a time, in an iteration of a loop whose variables name
  the service the row is built from. An emission records one such step: the service
  of the iteration (its name and definition), the category and the group key the row
  goes to, and the row. The emissions of one match of a key are the rows of lines 99
  to 147 for that match; those of the first pass follow the loops of lines 70 and 79;
  those of the second pass follow the loop of line 150 and its test of line 151.
\<close>

record emission =
  origin :: "string \<times> service"
  target_category :: category
  group_key :: string
  emitted_row :: api_entry

definition match_emissions ::
  "(string \<Rightarrow> string) \<Rightarrow> string \<Rightarrow> string list \<Rightarrow> string \<times> service \<Rightarrow> emission list" where
  "match_emissions unicode_lower key function_ids m =
     map (\<lambda>e. \<lparr>origin = m, target_category = service_category unicode_lower (snd m),
                group_key = key, emitted_row = e\<rparr>)
         (entries_for unicode_lower (fst m) (snd m) function_ids)"

definition key_emissions ::
  "(string \<Rightarrow> string) \<Rightarrow> service dict \<Rightarrow> string \<times> string list \<Rightarrow> emission list" where
  "key_emissions unicode_lower services_dict item =
     concat (map (match_emissions unicode_lower (fst item) (snd item))
                 (find_matching_services (fst item) services_dict))"

definition first_pass_emissions ::
  "(string \<Rightarrow> string) \<Rightarrow> string list dict \<Rightarrow> service dict \<Rightarrow> emission list" where
  "first_pass_emissions unicode_lower mapping services_dict =
     concat (map (key_emissions unicode_lower services_dict) mapping)"

definition second_pass_emissions ::
  "(string \<Rightarrow> string) \<Rightarrow> string set \<Rightarrow> service dict \<Rightarrow> emission list" where
  "second_pass_emissions unicode_lower processed services_dict =
     map (\<lambda>p. \<lparr>origin = p, target_category = service_category unicode_lower (snd p),
                group_key = fst p, emitted_row = plain_entry unicode_lower (fst p) (snd p)\<rparr>)
         (filter (\<lambda>p. fst p \<notin> processed) services_dict)"

text \<open>
  Carrying out one emission on a catalog (lines 96, 97 and the append), and a list of
  them in order.
\<close>

definition emit :: "emission \<Rightarrow> catalog \<Rightarrow> catalog" where
  "emit t cat =
     append_entry (target_category t) (group_key t) (emitted_row t)
       (init_group (target_category t) (group_key t) cat)"

definition replay :: "emission list \<Rightarrow> catalog \<Rightarrow> catalog" where
  "replay ts cat = fold emit ts cat"

text \<open>All emissions of a run: those of the first pass, then those of the second.\<close>

definition emissions ::
  "(string \<Rightarrow> string) \<Rightarrow> string list dict \<Rightarrow> service dict \<Rightarrow> emission list" where
  "emissions unicode_lower mapping services_dict =
     first_pass_emissions unicode_lower mapping services_dict
     @ second_pass_emissions unicode_lower
         (processed_services (first_pass unicode_lower mapping services_dict)) services_dict"

text \<open>The tag of a service is made of ASCII characters only.\<close>

definition ascii_tag :: "service \<Rightarrow> bool" where
  "ascii_tag info = is_ascii (get_default info ''tag'' '''')"

section \<open>Dictionaries and strings\<close>

lemma fold_append_filter:
  "fold (\<lambda>x acc. if P x then acc @ [x] else acc) xs acc = acc @ filter P xs"
  by (induction xs arbitrary: acc) simp_all

lemma startswith_iff: "startswith s p \<longleftrightarrow> (\<exists>r. s = p @ r)"
  unfolding startswith_def
  by (metis append_eq_conv_conj append_take_drop_id)

lemma map_of_dict_set: "map_of (dict_set k v d) x = (if x = k then Some v else map_of d x)"
  by (induction d) auto

lemma keys_dict_set: "fst ` set (dict_set k v d) = insert k (fst ` set d)"
  by (induction d) auto

lemma distinct_dict_set: "distinct (map fst d) \<Longrightarrow> distinct (map fst (dict_set k v d))"
  by (induction d) (auto simp: keys_dict_set)

lemma find_append_case:
  "find P (xs @ ys) = (case find P xs of Some x \<Rightarrow> Some x | None \<Rightarrow> find P ys)"
  by (induction xs) auto

lemma dict_set_same: "map_of d k = Some v \<Longrightarrow> dict_set k v d = d"
  by (induction d) (auto split: if_splits)

lemma dict_set_twice: "dict_set k v (dict_set k w d) = dict_set k v d"
  by (induction d) auto

lemma set_dict_set: "set (dict_set k v d) \<subseteq> insert (k, v) (set d)"
  by (induction d) auto

lemma fold_invariant:
  "I s \<Longrightarrow> (\<And>x s. x \<in> set xs \<Longrightarrow> I s \<Longrightarrow> I (f x s)) \<Longrightarrow> I (fold f xs s)"
  by (induction xs arbitrary: s) simp_all

lemma fold_member:
  "x \<in> set xs \<Longrightarrow> (\<And>s. Q (f x s)) \<Longrightarrow> (\<And>y s. Q s \<Longrightarrow> Q (f y s)) \<Longrightarrow> Q (fold f xs s)"
proof (induction xs arbitrary: s)
  case Nil
  then show ?case by simp
next
  case (Cons a xs)
  show ?case
  proof (cases "x = a")
    case True
    have "Q (f a s)" using Cons.prems(2) True by simp
    then have "Q (fold f xs (f a s))"
      by (rule fold_invariant) (rule Cons.prems(3))
    then show ?thesis by simp
  next
    case False
    with Cons.prems(1) have "x \<in> set xs" by simp
    then have "Q (fold f xs (f a s))"
      using Cons.prems(2,3) by (rule Cons.IH)
    then show ?thesis by simp
  qed
qed

lemma same_key_same_value:
  "distinct (map fst d) \<Longrightarrow> (n, v) \<in> set d \<Longrightarrow> (n, w) \<in> set d \<Longrightarrow> v = w"
  by (rule eq_key_imp_eq_value)

lemma concat_map_split:
  "x \<in> set xs \<Longrightarrow> \<exists>pre post. concat (map f xs) = pre @ f x @ post"
proof -
  assume "x \<in> set xs"
  then obtain ys zs where "xs = ys @ x # zs" by (auto simp: in_set_conv_decomp)
  then have "concat (map f xs) = concat (map f ys) @ f x @ concat (map f zs)" by simp
  then show ?thesis by blast
qed

lemma filter_single:
  "distinct xs \<Longrightarrow> x \<in> set xs \<Longrightarrow> filter (\<lambda>y. y = x) xs = [x]"
proof (induction xs)
  case Nil
  then show ?case by simp
next
  case (Cons a xs)
  show ?case
  proof (cases "a = x")
    case True
    with Cons.prems have "x \<notin> set xs" by simp
    then have "filter (\<lambda>y. y = x) xs = []" by (auto simp: filter_empty_conv)
    with True show ?thesis by simp
  next
    case False
    with Cons show ?thesis by simp
  qed
qed

lemma filter_commute: "filter A (filter B xs) = filter B (filter A xs)"
  by (induction xs) auto

lemma distinct_keys_distinct: "distinct (map fst d) \<Longrightarrow> distinct d"
  by (rule distinct_map[THEN iffD1, THEN conjunct1])

lemma lower_ascii: "is_ascii s \<Longrightarrow> lower unicode_lower s = map lower_char s"
  by (simp add: lower_def)

lemma lower_not_ascii: "\<not> is_ascii s \<Longrightarrow> lower unicode_lower s = unicode_lower s"
  by (simp add: lower_def)

section \<open>The matcher\<close>

lemma find_matching_services_prefix:
  "dict_get d K = None \<Longrightarrow>
   find_matching_services K d = filter (\<lambda>(n, info). startswith n (K @ '' '')) d"
proof -
  have eq: "(\<lambda>(api_name, service_info) matches.
              if startswith api_name (K @ '' '') then matches @ [(api_name, service_info)] else matches)
        = (\<lambda>x acc. if (\<lambda>(n, info). startswith n (K @ '' '')) x then acc @ [x] else acc)"
    by (auto simp: fun_eq_iff)
  assume "dict_get d K = None"
  then show ?thesis
    unfolding find_matching_services_def by (simp add: eq fold_append_filter del: append.simps)
qed

lemma matches_subset:
  "set (find_matching_services k d) \<subseteq> set d"
proof (cases "dict_get d k")
  case None
  then show ?thesis by (simp add: find_matching_services_prefix)
next
  case (Some v)
  then show ?thesis
    by (auto simp: find_matching_services_def dict_get_def dest: map_of_SomeD)
qed

text \<open>
  Claim C1. When the key is the name of a registered service, the matcher returns the
  single pair of that name and its definition, whatever other names of the registry
  begin with the key followed by a space.
\<close>

theorem exact_match_takes_precedence:
  assumes "distinct (map fst services_dict)" and "(K, info) \<in> set services_dict"
  shows "find_matching_services K services_dict = [(K, info)]"
  using assms by (simp add: find_matching_services_def dict_get_def)

theorem exact_match_takes_precedence_witness:
  "distinct (map fst [(''Get Card'', [(''Url'', ''u1'')]), (''Get Card Bin'', [(''Url'', ''u2'')])])
   \<and> (''Get Card'', [(''Url'', ''u1'')]) \<in> set [(''Get Card'', [(''Url'', ''u1'')]), (''Get Card Bin'', [(''Url'', ''u2'')])]
   \<and> startswith ''Get Card Bin'' (''Get Card'' @ '' '')
   \<and> find_matching_services ''Get Card''
        [(''Get Card'', [(''Url'', ''u1'')]), (''Get Card Bin'', [(''Url'', ''u2'')])]
      = [(''Get Card'', [(''Url'', ''u1'')])]"
  using exact_match_takes_precedence
    [of "[(''Get Card'', [(''Url'', ''u1'')]), (''Get Card Bin'', [(''Url'', ''u2'')])]"
        "''Get Card''" "[(''Url'', ''u1'')]"]
  by (simp add: startswith_def)

text \<open>
  Claim C2. When the key is not the name of a registered service, the matcher returns,
  in registry order, the services whose name begins with the key followed by one space,
  and no other: each returned name is the key, a space and a remainder, and the result
  is empty when no name has that form.
\<close>

theorem prefix_match_word_boundary:
  assumes "K \<notin> fst ` set services_dict"
  shows "find_matching_services K services_dict
           = filter (\<lambda>(name, info). startswith name (K @ '' '')) services_dict
       \<and> (\<forall>(name, info) \<in> set (find_matching_services K services_dict).
             \<exists>rest. name = K @ '' '' @ rest)
       \<and> ((\<forall>(name, info) \<in> set services_dict. \<not> startswith name (K @ '' ''))
             \<longrightarrow> find_matching_services K services_dict = [])"
proof -
  from assms have "dict_get services_dict K = None"
    by (simp add: dict_get_def map_of_eq_None_iff)
  then have eq: "find_matching_services K services_dict
           = filter (\<lambda>(name, info). startswith name (K @ '' '')) services_dict"
    by (rule find_matching_services_prefix)
  have "\<forall>(name, info) \<in> set (find_matching_services K services_dict).
             \<exists>rest. name = K @ '' '' @ rest"
    unfolding eq by (auto simp: startswith_iff)
  moreover have "(\<forall>(name, info) \<in> set services_dict. \<not> startswith name (K @ '' ''))
             \<longrightarrow> find_matching_services K services_dict = []"
    unfolding eq by (auto simp: filter_empty_conv)
  ultimately show ?thesis using eq by blast
qed

theorem prefix_match_word_boundary_witness:
  "''Get Card'' \<notin> fst ` set [(''Get Cards'', [(''Url'', ''u1'')]), (''Get Card Bin'', [(''Url'', ''u2'')]), (''Get Card Pin'', [])]
   \<and> find_matching_services ''Get Card''
        [(''Get Cards'', [(''Url'', ''u1'')]), (''Get Card Bin'', [(''Url'', ''u2'')]), (''Get Card Pin'', [])]
      = [(''Get Card Bin'', [(''Url'', ''u2'')]), (''Get Card Pin'', [])]"
  using prefix_match_word_boundary
    [of "''Get Card''" "[(''Get Cards'', [(''Url'', ''u1'')]), (''Get Card Bin'', [(''Url'', ''u2'')]), (''Get Card Pin'', [])]"]
  by (simp add: startswith_def)

section \<open>The validator\<close>

lemma missing_keys_filter:
  "missing_keys sfi d = filter (\<lambda>key. find_matching_services key d = []) (map fst sfi)"
  unfolding missing_keys_def by (simp add: fold_append_filter)

text \<open>
  Claim C3. The validator runs the matcher on every key of the mapping: its list of
  missing keys is the list of all keys, in mapping order, for which the matcher returns
  nothing, and validation passes exactly when that list is empty. For the keys A, B, C
  and a registry that holds only B, the list is A, C.
\<close>

theorem validator_is_exhaustive:
  "missing_keys service_function_ids services_dict
     = filter (\<lambda>key. find_matching_services key services_dict = []) (map fst service_function_ids)
   \<and> validate_keys service_function_ids services_dict
       = (missing_keys service_function_ids services_dict = [])
   \<and> missing_keys [(''A'', []), (''B'', []), (''C'', [])] [(''B'', info)] = [''A'', ''C'']
   \<and> validate_keys [(''A'', []), (''B'', []), (''C'', [])] [(''B'', info)] = False"
proof -
  have ex: "missing_keys [(''A'', []), (''B'', []), (''C'', [])] [(''B'', info)] = [''A'', ''C'']"
    by (simp add: missing_keys_filter find_matching_services_def dict_get_def startswith_def)
  then show ?thesis
    by (simp add: missing_keys_filter validate_keys_def)
qed

section \<open>The schema path rewriter\<close>

text \<open>
  What the rewriter returns for a location with a directory \<open>dir\<close>, a file name that
  has an extension or not, and for a file name alone. The directory and its slash are
  kept only when the directory is not empty.
\<close>

lemma rsplit1_at_last: "sep \<notin> set b \<Longrightarrow> rsplit1 sep (a @ sep # b) = [a, b]"
proof -
  assume b: "sep \<notin> set b"
  have r: "rev (a @ sep # b) = rev b @ sep # rev a" by simp
  from b have t: "takeWhile (\<lambda>c. c \<noteq> sep) (rev b @ sep # rev a) = rev b"
    by (subst takeWhile_append2) auto
  from b have d: "dropWhile (\<lambda>c. c \<noteq> sep) (rev b @ sep # rev a) = sep # rev a"
    by (subst dropWhile_append2) auto
  show ?thesis
    unfolding rsplit1_def r t d by simp
qed

lemma modified_schema_cases:
  assumes "CHR ''/'' \<notin> set stem" and "CHR ''/'' \<notin> set ext" and "CHR ''.'' \<notin> set ext"
  shows "modified_schema (dir @ ''/'' @ stem @ ''.'' @ ext) f
           = (if dir \<noteq> [] then dir @ ''/'' @ stem @ ''-'' @ f @ ''.'' @ ext
              else stem @ ''-'' @ f @ ''.'' @ ext)"
    and "CHR ''.'' \<notin> set stem \<Longrightarrow>
         modified_schema (dir @ ''/'' @ stem) f
           = (if dir \<noteq> [] then dir @ ''/'' @ stem @ ''-'' @ f else stem @ ''-'' @ f)"
    and "modified_schema (stem @ ''.'' @ ext) f = stem @ ''-'' @ f @ ''.'' @ ext"
    and "CHR ''.'' \<notin> set stem \<Longrightarrow> stem \<noteq> [] \<Longrightarrow> modified_schema stem f = stem @ ''-'' @ f"
proof -
  have dot: "rsplit1 CHR ''.'' (stem @ CHR ''.'' # ext) = [stem, ext]"
    using assms(3) by (rule rsplit1_at_last)
  have slash1: "rsplit1 CHR ''/'' (dir @ CHR ''/'' # (stem @ CHR ''.'' # ext))
                  = [dir, stem @ CHR ''.'' # ext]"
    using assms(1,2) by (intro rsplit1_at_last) simp
  have slash2: "rsplit1 CHR ''/'' (dir @ CHR ''/'' # stem) = [dir, stem]"
    using assms(1) by (rule rsplit1_at_last)
  show "modified_schema (dir @ ''/'' @ stem @ ''.'' @ ext) f
           = (if dir \<noteq> [] then dir @ ''/'' @ stem @ ''-'' @ f @ ''.'' @ ext
              else stem @ ''-'' @ f @ ''.'' @ ext)"
    using slash1 dot by (simp add: modified_schema_def)
  show "modified_schema (dir @ ''/'' @ stem) f
           = (if dir \<noteq> [] then dir @ ''/'' @ stem @ ''-'' @ f else stem @ ''-'' @ f)"
    if "CHR ''.'' \<notin> set stem"
    using slash2 that by (simp add: modified_schema_def)
  show "modified_schema (stem @ ''.'' @ ext) f = stem @ ''-'' @ f @ ''.'' @ ext"
    using dot assms(1,2) by (simp add: modified_schema_def)
  show "modified_schema stem f = stem @ ''-'' @ f"
    if "CHR ''.'' \<notin> set stem" and "stem \<noteq> []"
    using that assms(1) by (simp add: modified_schema_def)
qed

text \<open>
  Claim C5 says that the result is the directory, a slash and the new file name
  whenever the location contains a slash, also for an empty directory as in /c.xsd.
  There the directory part that \<^verbatim>\<open>rsplit\<close> returns is the empty string, the test
  of line 132 fails as it does for a location without slash, and the leading slash is
  lost: the result is the new file name alone.
\<close>

theorem root_directory_slash_dropped:
  "modified_schema ''/c.xsd'' ''007'' = ''c-007.xsd''
   \<and> modified_schema ''/c.xsd'' ''007'' \<noteq> '''' @ ''/'' @ ''c-007.xsd''"
  by (simp add: modified_schema_def rsplit1_def)

section \<open>Registry construction\<close>

lemma map_of_add_service:
  "map_of (add_service a acc) X
     = (if dict_get a ''API Name'' = Some X \<and> X \<noteq> [] then Some a else map_of acc X)"
  by (cases "dict_get a ''API Name''") (auto simp: add_service_def map_of_dict_set)

lemma set_add_service:
  "set (add_service a acc) \<subseteq>
     set acc \<union> {(name, a) | name. dict_get a ''API Name'' = Some name \<and> name \<noteq> []}"
  using set_dict_set[of _ a acc]
  by (cases "dict_get a ''API Name''") (auto simp: add_service_def)

lemma distinct_add_service:
  "distinct (map fst acc) \<Longrightarrow> distinct (map fst (add_service a acc))"
  by (cases "dict_get a ''API Name''") (auto simp: add_service_def distinct_dict_set)

lemma convert_lookup_aux:
  "map_of (fold add_service arr acc) X
     = (if X = [] then map_of acc X
        else case find (\<lambda>service. dict_get service ''API Name'' = Some X) (rev arr) of
               Some service \<Rightarrow> Some service
             | None \<Rightarrow> map_of acc X)"
proof (induction arr arbitrary: acc)
  case Nil
  then show ?case by simp
next
  case (Cons a arr)
  show ?case
    by (simp add: Cons.IH find_append_case map_of_add_service split: option.splits)
qed

lemma convert_members_aux:
  "set (fold add_service arr acc) \<subseteq>
     set acc \<union> {(name, a) | name a. a \<in> set arr \<and> dict_get a ''API Name'' = Some name \<and> name \<noteq> []}"
proof (induction arr arbitrary: acc)
  case Nil
  then show ?case by simp
next
  case (Cons a arr)
  have "set (fold add_service (a # arr) acc) \<subseteq>
     set (add_service a acc) \<union> {(name, a) | name a. a \<in> set arr \<and> dict_get a ''API Name'' = Some name \<and> name \<noteq> []}"
    using Cons.IH[of "add_service a acc"] by simp
  with set_add_service[of a acc] show ?case by auto
qed

lemma convert_distinct_aux:
  "distinct (map fst acc) \<Longrightarrow> distinct (map fst (fold add_service arr acc))"
  by (induction arr arbitrary: acc) (simp_all add: distinct_add_service)

lemma convert_distinct: "distinct (map fst (convert_services_to_dict arr))"
  unfolding convert_services_to_dict_def by (rule convert_distinct_aux) simp

lemma convert_members:
  "(name, service) \<in> set (convert_services_to_dict arr) \<Longrightarrow>
     service \<in> set arr \<and> dict_get service ''API Name'' = Some name \<and> name \<noteq> []"
  using convert_members_aux[of arr "[]"]
  unfolding convert_services_to_dict_def by auto

section \<open>The catalog builder\<close>

lemma append_entry_extend:
  "dict_contains k (cat c) \<Longrightarrow> append_entry c k e cat = extend_group c k [e] cat"
  by (auto simp: append_entry_def extend_group_def dict_contains_def dict_get_def get_default_def)

lemma extend_group_nil:
  "dict_contains k (cat c) \<Longrightarrow> extend_group c k [] cat = cat"
  by (auto simp: extend_group_def dict_contains_def get_default_def dict_set_same)

lemma extend_group_twice:
  "extend_group c k es2 (extend_group c k es1 cat) = extend_group c k (es1 @ es2) cat"
  by (simp add: extend_group_def get_default_def map_of_dict_set dict_set_twice)

lemma extend_group_contains:
  "dict_contains k (extend_group c k es cat c)"
  by (simp add: extend_group_def dict_contains_def map_of_dict_set)

lemma fold_append_entry:
  "dict_contains k (cat c) \<Longrightarrow>
   fold (\<lambda>x. append_entry c k (g x)) xs cat = extend_group c k (map g xs) cat"
proof (induction xs arbitrary: cat)
  case Nil
  then show ?case by (simp add: extend_group_nil)
next
  case (Cons x xs)
  have "fold (\<lambda>x. append_entry c k (g x)) (x # xs) cat
          = fold (\<lambda>x. append_entry c k (g x)) xs (extend_group c k [g x] cat)"
    using Cons.prems by (simp add: append_entry_extend)
  also have "\<dots> = extend_group c k (map g xs) (extend_group c k [g x] cat)"
    by (rule Cons.IH) (rule extend_group_contains)
  finally show ?case by (simp add: extend_group_twice)
qed

lemma init_group_contains: "dict_contains k (init_group c k cat c)"
  by (simp add: init_group_def dict_contains_def map_of_dict_set)

lemma extend_group_init:
  "extend_group c k es (init_group c k cat) = extend_group c k es cat"
  by (auto simp: init_group_def extend_group_def dict_contains_def get_default_def
      map_of_dict_set dict_set_twice)

lemma process_match_closed:
  "process_match unicode_lower k fids (m, info) st =
     \<lparr>catalog = extend_group (service_category unicode_lower info) k (entries_for unicode_lower m info fids) (catalog st),
      processed_services = insert m (processed_services st)\<rparr>"
proof (cases "fids = []")
  case True
  then show ?thesis
    by (simp add: process_match_def Let_def append_entry_extend init_group_contains
        extend_group_init entries_for_def plain_entry_def service_category_def)
next
  case False
  have "fold (\<lambda>function_id. append_entry (service_category unicode_lower info) k (expanded_entry unicode_lower m info function_id))
          fids (init_group (service_category unicode_lower info) k (catalog st))
        = extend_group (service_category unicode_lower info) k (map (expanded_entry unicode_lower m info) fids) (catalog st)"
    by (simp add: fold_append_entry init_group_contains extend_group_init)
  with False show ?thesis
    by (simp add: process_match_def Let_def entries_for_def expanded_entry_def
        service_category_def)
qed

lemma process_unmapped_closed:
  "process_unmapped unicode_lower P (n, info) cat =
     (if n \<notin> P then extend_group (service_category unicode_lower info) n [plain_entry unicode_lower n info] cat else cat)"
  by (simp add: process_unmapped_def Let_def append_entry_extend init_group_contains
      extend_group_init plain_entry_def service_category_def)

subsection \<open>Rows and the services they are made from\<close>

lemma from_service_plain: "from_service unicode_lower (n, info) (plain_entry unicode_lower n info)"
  by (simp add: from_service_def)

lemma from_service_expanded: "from_service unicode_lower (n, info) (expanded_entry unicode_lower n info f)"
  by (simp add: from_service_def expanded_entry_def dict_get_def startswith_def)

lemma from_service_entries_for: "e \<in> set (entries_for unicode_lower n info fids) \<Longrightarrow> from_service unicode_lower (n, info) e"
  by (auto simp: entries_for_def from_service_plain from_service_expanded split: if_splits)

lemma from_service_iff:
  "from_service unicode_lower (n, info) e \<longleftrightarrow> (e = plain_entry unicode_lower n info \<or> (\<exists>f. e = expanded_entry unicode_lower n info f))"
proof
  assume "from_service unicode_lower (n, info) e"
  then show "e = plain_entry unicode_lower n info \<or> (\<exists>f. e = expanded_entry unicode_lower n info f)"
    by (auto simp: from_service_def split: option.splits)
next
  assume "e = plain_entry unicode_lower n info \<or> (\<exists>f. e = expanded_entry unicode_lower n info f)"
  then show "from_service unicode_lower (n, info) e"
    using from_service_plain from_service_expanded by blast
qed

subsection \<open>Adding rows to a group\<close>

lemma api_count_dict_set:
  "api_count (dict_set k (get_default d k [] @ es) d) = api_count d + length es"
  by (induction d) (auto simp: api_count_def get_default_def)

lemma total_apis_extend_group:
  "total_apis (extend_group c k es cat) = total_apis cat + length es"
  by (cases c) (simp_all add: total_apis_def extend_group_def api_count_dict_set)

lemma extend_group_lookup:
  "dict_get (extend_group c k es cat c') k'
     = (if c' = c \<and> k' = k then Some (get_default (cat c) k [] @ es) else dict_get (cat c') k')"
  by (simp add: extend_group_def dict_get_def map_of_dict_set)

lemma has_rows_extend_new: "has_rows (extend_group c k es cat) c k es"
  unfolding has_rows_def extend_group_lookup
  by (metis append_Nil2)

lemma has_rows_extend_mono:
  assumes "has_rows cat c k es"
  shows "has_rows (extend_group c' k' es' cat) c k es"
proof -
  from assms obtain pre post where g: "dict_get (cat c) k = Some (pre @ es @ post)"
    by (auto simp: has_rows_def)
  show ?thesis
  proof (cases "c = c' \<and> k = k'")
    case True
    moreover from g have "get_default (cat c) k [] = pre @ es @ post"
      by (simp add: get_default_def dict_get_def)
    ultimately have "dict_get (extend_group c' k' es' cat c) k = Some (pre @ es @ (post @ es'))"
      by (simp add: extend_group_lookup)
    then show ?thesis unfolding has_rows_def by blast
  next
    case False
    with g have "dict_get (extend_group c' k' es' cat c) k = Some (pre @ es @ post)"
      by (auto simp: extend_group_lookup)
    then show ?thesis unfolding has_rows_def by blast
  qed
qed

lemma all_rows_extend:
  assumes "all_rows P cat" and "\<forall>e \<in> set es. P e"
  shows "all_rows P (extend_group c k es cat)"
proof -
  have old: "\<forall>e \<in> set (get_default (cat c) k []). P e"
  proof (cases "map_of (cat c) k")
    case None
    then show ?thesis by (simp add: get_default_def)
  next
    case (Some rows)
    then have "(k, rows) \<in> set (cat c)" by (rule map_of_SomeD)
    with assms(1) have "\<forall>e \<in> set (snd (k, rows)). P e"
      unfolding all_rows_def by blast
    with Some show ?thesis by (simp add: get_default_def)
  qed
  show ?thesis
    unfolding all_rows_def
  proof (intro allI)
    fix c'
    show "\<forall>g \<in> set (extend_group c k es cat c'). \<forall>e \<in> set (snd g). P e"
    proof (cases "c' = c")
      case False
      with assms(1) show ?thesis by (simp add: extend_group_def all_rows_def)
    next
      case True
      have "set (extend_group c k es cat c) \<subseteq> insert (k, get_default (cat c) k [] @ es) (set (cat c))"
        by (simp add: extend_group_def set_dict_set)
      with assms old True show ?thesis by (fastforce simp: all_rows_def)
    qed
  qed
qed

lemma keys_extend_group:
  "fst ` set (extend_group c k es cat c') = (if c' = c then insert k (fst ` set (cat c')) else fst ` set (cat c'))"
  by (simp add: extend_group_def keys_dict_set)

lemma category_cases: "set (cat REST @ cat SOAP) = (\<Union>c. set (cat c))"
proof
  show "set (cat REST @ cat SOAP) \<subseteq> (\<Union>c. set (cat c))" by auto
  show "(\<Union>c. set (cat c)) \<subseteq> set (cat REST @ cat SOAP)"
  proof
    fix x
    assume "x \<in> (\<Union>c. set (cat c))"
    then obtain c where "x \<in> set (cat c)" by auto
    then show "x \<in> set (cat REST @ cat SOAP)" by (cases c) auto
  qed
qed

subsection \<open>The loops of the first pass\<close>

lemma process_key_fold:
  "process_key unicode_lower d (k, fids) st = fold (process_match unicode_lower k fids) (find_matching_services k d) st"
  by (simp add: process_key_def Let_def)

lemma catalog_process_match:
  "catalog (process_match unicode_lower k fids m st)
     = extend_group (service_category unicode_lower (snd m)) k (entries_for unicode_lower (fst m) (snd m) fids) (catalog st)"
  by (cases m) (simp add: process_match_closed)

lemma processed_process_match:
  "processed_services (process_match unicode_lower k fids m st) = insert (fst m) (processed_services st)"
  by (cases m) (simp add: process_match_closed)

lemma length_entries_for:
  "length (entries_for unicode_lower n info fids) = (if fids = [] then 1 else length fids)"
  by (simp add: entries_for_def)

lemma processed_fold_match:
  "processed_services (fold (process_match unicode_lower k fids) ms st) = processed_services st \<union> fst ` set ms"
  by (induction ms arbitrary: st) (auto simp: processed_process_match)

lemma processed_process_key:
  "processed_services (process_key unicode_lower d item st)
     = processed_services st \<union> fst ` set (find_matching_services (fst item) d)"
  by (cases item) (simp add: process_key_fold processed_fold_match)

lemma processed_fold_key:
  "processed_services (fold (process_key unicode_lower d) sfi st)
     = processed_services st \<union> (\<Union>item \<in> set sfi. fst ` set (find_matching_services (fst item) d))"
  by (induction sfi arbitrary: st) (auto simp: processed_process_key)

lemma processed_first_pass:
  "processed_services (first_pass unicode_lower sfi d)
     = (\<Union>item \<in> set sfi. fst ` set (find_matching_services (fst item) d))"
  by (simp add: first_pass_def processed_fold_key)

lemma total_fold_match:
  "total_apis (catalog (fold (process_match unicode_lower k fids) ms st))
     = total_apis (catalog st) + length ms * (if fids = [] then 1 else length fids)"
  by (induction ms arbitrary: st)
     (simp_all add: catalog_process_match total_apis_extend_group length_entries_for)

lemma has_rows_process_match:
  "has_rows (catalog st) c k es \<Longrightarrow> has_rows (catalog (process_match unicode_lower k' fids m st)) c k es"
  by (simp add: catalog_process_match has_rows_extend_mono)

lemma has_rows_process_key:
  "has_rows (catalog st) c k es \<Longrightarrow> has_rows (catalog (process_key unicode_lower d item st)) c k es"
proof (cases item)
  case (Pair k' fids)
  assume "has_rows (catalog st) c k es"
  then have "has_rows (catalog (fold (process_match unicode_lower k' fids) (find_matching_services k' d) st)) c k es"
    by (rule fold_invariant[where I = "\<lambda>s. has_rows (catalog s) c k es"])
       (rule has_rows_process_match)
  with Pair show ?thesis by (simp add: process_key_fold)
qed

lemma has_rows_match_added:
  assumes "(m, info) \<in> set ms"
  shows "has_rows (catalog (fold (process_match unicode_lower k fids) ms st))
           (service_category unicode_lower info) k (entries_for unicode_lower m info fids)"
  using assms
proof (rule fold_member)
  fix s
  show "has_rows (catalog (process_match unicode_lower k fids (m, info) s))
           (service_category unicode_lower info) k (entries_for unicode_lower m info fids)"
    by (simp add: catalog_process_match has_rows_extend_new)
next
  fix y and s :: builder
  assume "has_rows (catalog s) (service_category unicode_lower info) k (entries_for unicode_lower m info fids)"
  then show "has_rows (catalog (process_match unicode_lower k fids y s))
           (service_category unicode_lower info) k (entries_for unicode_lower m info fids)"
    by (rule has_rows_process_match)
qed

lemma has_rows_first_pass:
  assumes "(k, fids) \<in> set sfi" and "(m, info) \<in> set (find_matching_services k d)"
  shows "has_rows (catalog (first_pass unicode_lower sfi d)) (service_category unicode_lower info) k (entries_for unicode_lower m info fids)"
  unfolding first_pass_def using assms(1)
proof (rule fold_member)
  fix s
  show "has_rows (catalog (process_key unicode_lower d (k, fids) s))
           (service_category unicode_lower info) k (entries_for unicode_lower m info fids)"
    using assms(2) by (simp add: process_key_fold has_rows_match_added)
next
  fix y and s :: builder
  assume "has_rows (catalog s) (service_category unicode_lower info) k (entries_for unicode_lower m info fids)"
  then show "has_rows (catalog (process_key unicode_lower d y s))
           (service_category unicode_lower info) k (entries_for unicode_lower m info fids)"
    by (rule has_rows_process_key)
qed

lemma has_rows_process_unmapped:
  "has_rows cat c k es \<Longrightarrow> has_rows (process_unmapped unicode_lower P item cat) c k es"
  by (cases item) (simp add: process_unmapped_closed has_rows_extend_mono)

lemma has_rows_second_pass:
  "has_rows (catalog st) c k es \<Longrightarrow> has_rows (second_pass unicode_lower d st) c k es"
  unfolding second_pass_def
  by (rule fold_invariant[where I = "\<lambda>cat. has_rows cat c k es"])
     (simp_all add: has_rows_process_unmapped)

lemma all_rows_process_match:
  assumes "all_rows P (catalog st)" and "\<forall>e \<in> set (entries_for unicode_lower (fst m) (snd m) fids). P e"
  shows "all_rows P (catalog (process_match unicode_lower k fids m st))"
  using assms by (simp add: catalog_process_match all_rows_extend)

lemma all_rows_process_key:
  assumes "all_rows P (catalog st)"
    and "\<forall>m \<in> set (find_matching_services (fst item) d).
           \<forall>e \<in> set (entries_for unicode_lower (fst m) (snd m) (snd item)). P e"
  shows "all_rows P (catalog (process_key unicode_lower d item st))"
proof (cases item)
  case (Pair k fids)
  have "all_rows P (catalog (fold (process_match unicode_lower k fids) (find_matching_services k d) st))"
    using assms(1)
  proof (rule fold_invariant[where I = "\<lambda>s. all_rows P (catalog s)"])
    fix x and s :: builder
    assume "x \<in> set (find_matching_services k d)" and "all_rows P (catalog s)"
    with assms(2) Pair show "all_rows P (catalog (process_match unicode_lower k fids x s))"
      by (simp add: all_rows_process_match)
  qed
  with Pair show ?thesis by (simp add: process_key_fold)
qed

lemma all_rows_first_pass: "all_rows (from_registry unicode_lower d) (catalog (first_pass unicode_lower sfi d))"
  unfolding first_pass_def
proof (rule fold_invariant[where I = "\<lambda>s. all_rows (from_registry unicode_lower d) (catalog s)"])
  show "all_rows (from_registry unicode_lower d) (catalog \<lparr>catalog = \<lambda>_. [], processed_services = {}\<rparr>)"
    by (simp add: all_rows_def)
next
  fix x and s :: builder
  assume "all_rows (from_registry unicode_lower d) (catalog s)"
  moreover have "\<forall>m \<in> set (find_matching_services (fst x) d).
           \<forall>e \<in> set (entries_for unicode_lower (fst m) (snd m) (snd x)). from_registry unicode_lower d e"
  proof (intro ballI)
    fix m e
    assume m: "m \<in> set (find_matching_services (fst x) d)"
      and e: "e \<in> set (entries_for unicode_lower (fst m) (snd m) (snd x))"
    from m have "m \<in> set d" using matches_subset by blast
    moreover from e have "from_service unicode_lower (fst m, snd m) e" by (rule from_service_entries_for)
    ultimately show "from_registry unicode_lower d e" unfolding from_registry_def by auto
  qed
  ultimately show "all_rows (from_registry unicode_lower d) (catalog (process_key unicode_lower d x s))"
    by (rule all_rows_process_key)
qed

lemma all_rows_second_pass:
  assumes "all_rows (from_registry unicode_lower d) (catalog st)"
  shows "all_rows (from_registry unicode_lower d) (second_pass unicode_lower d st)"
  unfolding second_pass_def using assms
proof (rule fold_invariant[where I = "all_rows (from_registry unicode_lower d)"])
  fix x s
  assume x: "x \<in> set d" and s: "all_rows (from_registry unicode_lower d) s"
  have "from_registry unicode_lower d (plain_entry unicode_lower (fst x) (snd x))"
    unfolding from_registry_def using x from_service_plain[of unicode_lower "fst x" "snd x"] by auto
  with s show "all_rows (from_registry unicode_lower d) (process_unmapped unicode_lower (processed_services st) x s)"
    by (cases x) (simp add: process_unmapped_closed all_rows_extend)
qed

lemma all_rows_generate: "all_rows (from_registry unicode_lower d) (generate_api_catalog unicode_lower sfi d)"
  unfolding generate_api_catalog_def by (rule all_rows_second_pass) (rule all_rows_first_pass)

lemma keys_process_match:
  "fst ` set (catalog (process_match unicode_lower k fids m st) c) \<subseteq> insert k (fst ` set (catalog st c))"
  by (auto simp: catalog_process_match keys_extend_group split: if_splits)

lemma keys_process_key:
  assumes "fst ` set (catalog st c) \<subseteq> A"
    and "find_matching_services (fst item) d \<noteq> [] \<longrightarrow> fst item \<in> A"
  shows "fst ` set (catalog (process_key unicode_lower d item st) c) \<subseteq> A"
proof (cases item)
  case (Pair k fids)
  show ?thesis
  proof (cases "find_matching_services k d = []")
    case True
    with Pair assms(1) show ?thesis by (simp add: process_key_fold)
  next
    case False
    with assms(2) Pair have k: "k \<in> A" by simp
    have "fst ` set (catalog (fold (process_match unicode_lower k fids) (find_matching_services k d) st) c) \<subseteq> A"
      using assms(1)
    proof (rule fold_invariant[where I = "\<lambda>s. fst ` set (catalog s c) \<subseteq> A"])
      fix x and s :: builder
      assume "fst ` set (catalog s c) \<subseteq> A"
      with k keys_process_match[of unicode_lower k fids x s c]
      show "fst ` set (catalog (process_match unicode_lower k fids x s) c) \<subseteq> A" by auto
    qed
    with Pair show ?thesis by (simp add: process_key_fold)
  qed
qed

lemma keys_first_pass:
  "fst ` set (catalog (first_pass unicode_lower sfi d) c)
     \<subseteq> {k \<in> fst ` set sfi. find_matching_services k d \<noteq> []}"
  unfolding first_pass_def
proof (rule fold_invariant[where I = "\<lambda>s. fst ` set (catalog s c)
     \<subseteq> {k \<in> fst ` set sfi. find_matching_services k d \<noteq> []}"])
  show "fst ` set (catalog \<lparr>catalog = \<lambda>_. [], processed_services = {}\<rparr> c)
     \<subseteq> {k \<in> fst ` set sfi. find_matching_services k d \<noteq> []}" by simp
next
  fix x and s :: builder
  assume "x \<in> set sfi" and "fst ` set (catalog s c)
     \<subseteq> {k \<in> fst ` set sfi. find_matching_services k d \<noteq> []}"
  then show "fst ` set (catalog (process_key unicode_lower d x s) c)
     \<subseteq> {k \<in> fst ` set sfi. find_matching_services k d \<noteq> []}"
    by (intro keys_process_key) auto
qed

lemma exact_match: "(n, info) \<in> set d \<Longrightarrow> distinct (map fst d) \<Longrightarrow>
  find_matching_services n d = [(n, info)]"
  by (simp add: find_matching_services_def dict_get_def)

lemma unprocessed_no_group:
  assumes "distinct (map fst d)" and "(n, info) \<in> set d"
    and "n \<notin> processed_services (first_pass unicode_lower sfi d)"
  shows "dict_get (catalog (first_pass unicode_lower sfi d) c) n = None"
proof (rule ccontr)
  assume "dict_get (catalog (first_pass unicode_lower sfi d) c) n \<noteq> None"
  then have "n \<in> fst ` set (catalog (first_pass unicode_lower sfi d) c)"
    by (simp add: dict_get_def map_of_eq_None_iff)
  with keys_first_pass[of unicode_lower sfi d c] have "n \<in> fst ` set sfi" by auto
  then obtain item where item: "item \<in> set sfi" "fst item = n" by auto
  from assms(1,2) have "find_matching_services n d = [(n, info)]" by (simp add: exact_match)
  with item have "n \<in> processed_services (first_pass unicode_lower sfi d)"
    unfolding processed_first_pass by force
  with assms(3) show False by simp
qed

subsection \<open>The second pass\<close>

lemma process_unmapped_other:
  "n \<noteq> fst item \<Longrightarrow> dict_get (process_unmapped unicode_lower P item cat c) n = dict_get (cat c) n"
  by (cases item) (simp add: process_unmapped_closed extend_group_lookup)

lemma second_pass_other:
  "n \<notin> fst ` set d \<Longrightarrow> dict_get (fold (process_unmapped unicode_lower P) d cat c) n = dict_get (cat c) n"
  by (induction d arbitrary: cat) (simp_all add: process_unmapped_other)

lemma second_pass_group:
  assumes "distinct (map fst d)" and "(n, info) \<in> set d" and "n \<notin> P"
    and "\<forall>c. dict_get (cat c) n = None"
  shows "dict_get (fold (process_unmapped unicode_lower P) d cat c) n
           = (if c = service_category unicode_lower info then Some [plain_entry unicode_lower n info] else None)"
  using assms
proof (induction d arbitrary: cat)
  case Nil
  then show ?case by simp
next
  case (Cons item d)
  show ?case
  proof (cases "fst item = n")
    case True
    with Cons.prems(1) have notin: "n \<notin> fst ` set d" by auto
    with Cons.prems(2) have item: "item = (n, info)" by force
    have "dict_get (fold (process_unmapped unicode_lower P) d (process_unmapped unicode_lower P item cat) c) n
            = dict_get (process_unmapped unicode_lower P item cat c) n"
      using notin by (rule second_pass_other)
    also have "\<dots> = (if c = service_category unicode_lower info then Some [plain_entry unicode_lower n info] else None)"
    proof -
      from Cons.prems(4) have "get_default (cat (service_category unicode_lower info)) n [] = []"
        by (simp add: get_default_def dict_get_def)
      with Cons.prems(3,4) item show ?thesis
        by (simp add: process_unmapped_closed extend_group_lookup)
    qed
    finally show ?thesis by simp
  next
    case False
    with Cons.prems(2) have "(n, info) \<in> set d" by auto
    moreover from Cons.prems(1) have "distinct (map fst d)" by simp
    moreover have "\<forall>c. dict_get (process_unmapped unicode_lower P item cat c) n = None"
      using False Cons.prems(4) by (simp add: process_unmapped_other)
    ultimately have "dict_get (fold (process_unmapped unicode_lower P) d (process_unmapped unicode_lower P item cat) c) n
           = (if c = service_category unicode_lower info then Some [plain_entry unicode_lower n info] else None)"
      using Cons.prems(3) by (intro Cons.IH)
    then show ?thesis by simp
  qed
qed

lemma second_pass_total:
  "total_apis (fold (process_unmapped unicode_lower P) d cat)
     = total_apis cat + length (filter (\<lambda>item. fst item \<notin> P) d)"
proof (induction d arbitrary: cat)
  case Nil
  then show ?case by simp
next
  case (Cons item d)
  then show ?case
    by (cases item) (simp add: process_unmapped_closed total_apis_extend_group)
qed

lemma has_rows_references:
  assumes "has_rows cat c k (entries_for unicode_lower n info fids)"
  shows "references unicode_lower cat (n, info)"
proof -
  from assms obtain pre post
    where g: "dict_get (cat c) k = Some (pre @ entries_for unicode_lower n info fids @ post)"
    by (auto simp: has_rows_def)
  then have mem: "(k, pre @ entries_for unicode_lower n info fids @ post) \<in> set (cat c)"
    by (simp add: dict_get_def map_of_SomeD)
  obtain e where e: "e \<in> set (entries_for unicode_lower n info fids)"
    by (cases "entries_for unicode_lower n info fids") (auto simp: entries_for_def split: if_splits)
  then have "from_service unicode_lower (n, info) e" by (rule from_service_entries_for)
  with e mem show ?thesis
    unfolding references_def category_cases by force
qed

subsection \<open>Each service of the registry in the catalog\<close>

lemma processed_iff:
  assumes "distinct (map fst d)" and "(n, info) \<in> set d"
  shows "n \<in> processed_services (first_pass unicode_lower sfi d)
           \<longleftrightarrow> (\<exists>item \<in> set sfi. (n, info) \<in> set (find_matching_services (fst item) d))"
proof
  assume "n \<in> processed_services (first_pass unicode_lower sfi d)"
  then have "n \<in> (\<Union>item \<in> set sfi. fst ` set (find_matching_services (fst item) d))"
    by (simp only: processed_first_pass)
  then obtain item where item: "item \<in> set sfi"
    and "n \<in> fst ` set (find_matching_services (fst item) d)"
    by (rule UN_E)
  then obtain v where m: "(n, v) \<in> set (find_matching_services (fst item) d)"
    by fastforce
  then have "(n, v) \<in> set d" using matches_subset[of "fst item" d] by (rule_tac subsetD)
  with assms have "info = v" by (rule same_key_same_value)
  with item m show "\<exists>item \<in> set sfi. (n, info) \<in> set (find_matching_services (fst item) d)"
    by (intro bexI[of _ item]) simp_all
next
  assume "\<exists>item \<in> set sfi. (n, info) \<in> set (find_matching_services (fst item) d)"
  then obtain item where "item \<in> set sfi"
    and "(n, info) \<in> set (find_matching_services (fst item) d)" by (rule bexE)
  then have "n \<in> (\<Union>item \<in> set sfi. fst ` set (find_matching_services (fst item) d))"
    by (intro UN_I[of item] image_eqI[of _ _ "(n, info)"]) simp_all
  then show "n \<in> processed_services (first_pass unicode_lower sfi d)"
    by (simp only: processed_first_pass)
qed

lemma expanded_in_final:
  assumes "item \<in> set sfi" and "(n, info) \<in> set (find_matching_services (fst item) d)"
  shows "has_rows (generate_api_catalog unicode_lower sfi d) (service_category unicode_lower info) (fst item)
           (entries_for unicode_lower n info (snd item))"
proof -
  obtain k fids where item: "item = (k, fids)" by (cases item)
  with assms have "has_rows (catalog (first_pass unicode_lower sfi d)) (service_category unicode_lower info) k
           (entries_for unicode_lower n info fids)"
    by (simp add: has_rows_first_pass)
  then have "has_rows (second_pass unicode_lower d (first_pass unicode_lower sfi d)) (service_category unicode_lower info) k
           (entries_for unicode_lower n info fids)"
    by (rule has_rows_second_pass)
  with item show ?thesis by (simp add: generate_api_catalog_def)
qed

lemma standalone_in_final:
  assumes "distinct (map fst d)" and "(n, info) \<in> set d"
    and "n \<notin> processed_services (first_pass unicode_lower sfi d)"
  shows "dict_get (generate_api_catalog unicode_lower sfi d c) n
           = (if c = service_category unicode_lower info then Some [plain_entry unicode_lower n info] else None)"
proof -
  from assms have "\<forall>c. dict_get (catalog (first_pass unicode_lower sfi d) c) n = None"
    by (simp add: unprocessed_no_group)
  with assms show ?thesis
    unfolding generate_api_catalog_def second_pass_def
    by (rule second_pass_group)
qed

lemma service_referenced:
  assumes "distinct (map fst d)" and "(n, info) \<in> set d"
  shows "references unicode_lower (generate_api_catalog unicode_lower sfi d) (n, info)"
proof (cases "n \<in> processed_services (first_pass unicode_lower sfi d)")
  case True
  with assms obtain item where "item \<in> set sfi"
    and "(n, info) \<in> set (find_matching_services (fst item) d)"
    by (auto simp: processed_iff)
  then have "has_rows (generate_api_catalog unicode_lower sfi d) (service_category unicode_lower info) (fst item)
           (entries_for unicode_lower n info (snd item))"
    by (rule expanded_in_final)
  then show ?thesis by (rule has_rows_references)
next
  case False
  with assms have "dict_get (generate_api_catalog unicode_lower sfi d (service_category unicode_lower info)) n
           = Some [plain_entry unicode_lower n info]"
    by (simp add: standalone_in_final)
  then have "has_rows (generate_api_catalog unicode_lower sfi d) (service_category unicode_lower info) n
           (entries_for unicode_lower n info [])"
    unfolding has_rows_def entries_for_def
    by (intro exI[of _ "[]"]) simp
  then show ?thesis by (rule has_rows_references)
qed

subsection \<open>The catalog as the emissions of the two passes\<close>

lemma emit_extend:
  "emit t cat = extend_group (target_category t) (group_key t) [emitted_row t] cat"
  by (simp add: emit_def append_entry_extend init_group_contains extend_group_init)

lemma replay_append: "replay (ts @ us) cat = replay us (replay ts cat)"
  by (simp add: replay_def)

lemma replay_group_aux:
  "replay (map (\<lambda>e. \<lparr>origin = p, target_category = c, group_key = k, emitted_row = e\<rparr>) es) (extend_group c k es0 cat)
     = extend_group c k (es0 @ es) cat"
proof (induction es arbitrary: es0)
  case Nil
  then show ?case by (simp add: replay_def)
next
  case (Cons e es)
  have "replay (map (\<lambda>e. \<lparr>origin = p, target_category = c, group_key = k, emitted_row = e\<rparr>) (e # es)) (extend_group c k es0 cat)
          = replay (map (\<lambda>e. \<lparr>origin = p, target_category = c, group_key = k, emitted_row = e\<rparr>) es) (extend_group c k (es0 @ [e]) cat)"
    by (simp add: replay_def emit_extend extend_group_twice)
  also have "\<dots> = extend_group c k ((es0 @ [e]) @ es) cat"
    by (rule Cons.IH)
  finally show ?case by simp
qed

lemma replay_group:
  assumes "es \<noteq> []"
  shows "replay (map (\<lambda>e. \<lparr>origin = p, target_category = c, group_key = k, emitted_row = e\<rparr>) es) cat = extend_group c k es cat"
proof -
  from assms obtain e es' where es: "es = e # es'" by (cases es) auto
  have "replay (map (\<lambda>e. \<lparr>origin = p, target_category = c, group_key = k, emitted_row = e\<rparr>) (e # es')) cat
          = replay (map (\<lambda>e. \<lparr>origin = p, target_category = c, group_key = k, emitted_row = e\<rparr>) es') (extend_group c k [e] cat)"
    by (simp add: replay_def emit_extend)
  also have "\<dots> = extend_group c k ([e] @ es') cat"
    by (rule replay_group_aux)
  finally show ?thesis using es by simp
qed

lemma entries_for_nonempty: "entries_for unicode_lower n info fids \<noteq> []"
  by (simp add: entries_for_def)

lemma catalog_process_match_replay:
  "catalog (process_match unicode_lower k fids m st)
     = replay (match_emissions unicode_lower k fids m) (catalog st)"
  by (simp add: catalog_process_match match_emissions_def replay_group entries_for_nonempty)

lemma catalog_fold_match_replay:
  "catalog (fold (process_match unicode_lower k fids) ms st)
     = replay (concat (map (match_emissions unicode_lower k fids) ms)) (catalog st)"
proof (induction ms arbitrary: st)
  case Nil
  then show ?case by (simp add: replay_def)
next
  case (Cons m ms)
  then show ?case by (simp add: replay_append catalog_process_match_replay)
qed

lemma catalog_process_key_replay:
  "catalog (process_key unicode_lower d item st)
     = replay (key_emissions unicode_lower d item) (catalog st)"
  by (cases item) (simp add: process_key_fold catalog_fold_match_replay key_emissions_def)

lemma catalog_fold_key_replay:
  "catalog (fold (process_key unicode_lower d) items st)
     = replay (concat (map (key_emissions unicode_lower d) items)) (catalog st)"
proof (induction items arbitrary: st)
  case Nil
  then show ?case by (simp add: replay_def)
next
  case (Cons item items)
  then show ?case by (simp add: replay_append catalog_process_key_replay)
qed

lemma first_pass_replay:
  "catalog (first_pass unicode_lower mapping d)
     = replay (first_pass_emissions unicode_lower mapping d) (\<lambda>_. [])"
  by (simp add: first_pass_def catalog_fold_key_replay first_pass_emissions_def)

lemma second_pass_replay_aux:
  "fold (process_unmapped unicode_lower P) d cat
     = replay (second_pass_emissions unicode_lower P d) cat"
proof (induction d arbitrary: cat)
  case Nil
  then show ?case by (simp add: replay_def second_pass_emissions_def)
next
  case (Cons item d)
  obtain n info where item: "item = (n, info)" by (cases item)
  show ?case
  proof (cases "n \<in> P")
    case True
    with item Cons.IH show ?thesis
      by (simp add: process_unmapped_closed second_pass_emissions_def)
  next
    case False
    have "second_pass_emissions unicode_lower P (item # d)
            = \<lparr>origin = (n, info), target_category = service_category unicode_lower info,
                group_key = n, emitted_row = plain_entry unicode_lower n info\<rparr>
              # second_pass_emissions unicode_lower P d"
      using False item by (simp add: second_pass_emissions_def)
    with False item Cons.IH show ?thesis
      by (simp add: process_unmapped_closed replay_def emit_extend)
  qed
qed

lemma generate_replay:
  "generate_api_catalog unicode_lower mapping d
     = replay (emissions unicode_lower mapping d) (\<lambda>_. [])"
  by (simp add: emissions_def generate_api_catalog_def second_pass_def second_pass_replay_aux
      first_pass_replay replay_append)

lemma total_apis_replay: "total_apis (replay ts cat) = total_apis cat + length ts"
proof (induction ts arbitrary: cat)
  case Nil
  then show ?case by (simp add: replay_def)
next
  case (Cons t ts)
  have "replay (t # ts) cat
          = replay ts (extend_group (target_category t) (group_key t) [emitted_row t] cat)"
    by (simp add: replay_def emit_extend)
  with Cons.IH show ?case by (simp add: total_apis_extend_group)
qed

lemma total_apis_empty: "total_apis (\<lambda>_. []) = 0"
  by (simp add: total_apis_def api_count_def)

lemma first_pass_emission_source:
  assumes "t \<in> set (first_pass_emissions unicode_lower mapping d)"
  shows "\<exists>item \<in> set mapping.
           group_key t = fst item
           \<and> origin t \<in> set (find_matching_services (fst item) d)
           \<and> target_category t = service_category unicode_lower (snd (origin t))
           \<and> emitted_row t
               \<in> set (entries_for unicode_lower (fst (origin t)) (snd (origin t)) (snd item))"
proof -
  from assms obtain item where item: "item \<in> set mapping"
    and "t \<in> set (key_emissions unicode_lower d item)"
    unfolding first_pass_emissions_def by auto
  then obtain m where m: "m \<in> set (find_matching_services (fst item) d)"
    and "t \<in> set (match_emissions unicode_lower (fst item) (snd item) m)"
    unfolding key_emissions_def by auto
  then obtain e where "e \<in> set (entries_for unicode_lower (fst m) (snd m) (snd item))"
    and "t = \<lparr>origin = m, target_category = service_category unicode_lower (snd m),
               group_key = fst item, emitted_row = e\<rparr>"
    unfolding match_emissions_def by auto
  with item m show ?thesis by (intro bexI[of _ item]) simp_all
qed

lemma first_pass_emissions_contain:
  assumes "item \<in> set mapping" and "m \<in> set (find_matching_services (fst item) d)"
  shows "\<exists>pre post. first_pass_emissions unicode_lower mapping d
           = pre @ match_emissions unicode_lower (fst item) (snd item) m @ post"
proof -
  from assms(1) obtain p1 q1 where a: "first_pass_emissions unicode_lower mapping d
           = p1 @ key_emissions unicode_lower d item @ q1"
    unfolding first_pass_emissions_def using concat_map_split by fast
  from assms(2) obtain p2 q2 where b: "key_emissions unicode_lower d item
           = p2 @ match_emissions unicode_lower (fst item) (snd item) m @ q2"
    unfolding key_emissions_def using concat_map_split by fast
  have "first_pass_emissions unicode_lower mapping d
           = (p1 @ p2) @ match_emissions unicode_lower (fst item) (snd item) m @ (q2 @ q1)"
    by (simp add: a b)
  then show ?thesis by blast
qed

lemma first_pass_emission_processed:
  assumes "t \<in> set (first_pass_emissions unicode_lower mapping d)"
  shows "fst (origin t) \<in> processed_services (first_pass unicode_lower mapping d)"
proof -
  from first_pass_emission_source[OF assms] obtain item where "item \<in> set mapping"
    and "origin t \<in> set (find_matching_services (fst item) d)" by blast
  then have "fst (origin t) \<in> (\<Union>item \<in> set mapping.
               fst ` set (find_matching_services (fst item) d))"
    by (intro UN_I[of item] imageI)
  then show ?thesis by (simp only: processed_first_pass)
qed

lemma second_pass_emissions_of:
  assumes "distinct (map fst d)" and "(n, info) \<in> set d"
  shows "filter (\<lambda>t. origin t = (n, info)) (second_pass_emissions unicode_lower P d)
           = (if n \<in> P then []
              else [\<lparr>origin = (n, info), target_category = service_category unicode_lower info,
                      group_key = n, emitted_row = plain_entry unicode_lower n info\<rparr>])"
proof -
  from assms have single: "filter (\<lambda>p. p = (n, info)) d = [(n, info)]"
    by (simp add: filter_single distinct_keys_distinct)
  have m: "filter (\<lambda>t. origin t = (n, info))
             (map (\<lambda>p. \<lparr>origin = p, target_category = service_category unicode_lower (snd p),
                group_key = fst p, emitted_row = plain_entry unicode_lower (fst p) (snd p)\<rparr>) xs)
           = map (\<lambda>p. \<lparr>origin = p, target_category = service_category unicode_lower (snd p),
                group_key = fst p, emitted_row = plain_entry unicode_lower (fst p) (snd p)\<rparr>)
               (filter (\<lambda>p. p = (n, info)) xs)" for xs
    by (induction xs) auto
  have "filter (\<lambda>p. p = (n, info)) (filter (\<lambda>p. fst p \<notin> P) d)
          = filter (\<lambda>p. fst p \<notin> P) (filter (\<lambda>p. p = (n, info)) d)"
    by (rule filter_commute)
  with single show ?thesis
    by (simp add: second_pass_emissions_def m)
qed

lemma first_pass_emissions_of_unprocessed:
  assumes "n \<notin> processed_services (first_pass unicode_lower mapping d)"
  shows "filter (\<lambda>t. origin t = (n, info)) (first_pass_emissions unicode_lower mapping d) = []"
proof -
  have "\<forall>t \<in> set (first_pass_emissions unicode_lower mapping d). origin t \<noteq> (n, info)"
  proof
    fix t
    assume "t \<in> set (first_pass_emissions unicode_lower mapping d)"
    then have "fst (origin t) \<in> processed_services (first_pass unicode_lower mapping d)"
      by (rule first_pass_emission_processed)
    with assms show "origin t \<noteq> (n, info)" by auto
  qed
  then show ?thesis by (simp add: filter_empty_conv)
qed

subsection \<open>Tags of ASCII characters\<close>

text \<open>
  When every tag of the registry is made of ASCII characters, the catalog does not
  depend on how text beyond ASCII is lower-cased.
\<close>

lemma process_match_ascii:
  assumes "ascii_tag (snd m)"
  shows "process_match unicode_lower k fids m = process_match other_lower k fids m"
proof
  fix st
  obtain n info where m: "m = (n, info)" by (cases m)
  with assms have "lower unicode_lower (get_default info ''tag'' '''')
                     = lower other_lower (get_default info ''tag'' '''')"
    by (simp add: ascii_tag_def lower_ascii)
  then show "process_match unicode_lower k fids m st = process_match other_lower k fids m st"
    by (simp add: m process_match_def)
qed

lemma process_key_ascii:
  assumes "\<forall>p \<in> set d. ascii_tag (snd p)"
  shows "process_key unicode_lower d item = process_key other_lower d item"
proof
  fix st
  obtain k fids where item: "item = (k, fids)" by (cases item)
  have "fold (process_match unicode_lower k fids) (find_matching_services k d) st
          = fold (process_match other_lower k fids) (find_matching_services k d) st"
  proof (rule fold_cong)
    fix m
    assume "m \<in> set (find_matching_services k d)"
    with assms have "ascii_tag (snd m)" using matches_subset[of k d] by blast
    then show "process_match unicode_lower k fids m = process_match other_lower k fids m"
      by (rule process_match_ascii)
  qed simp_all
  then show "process_key unicode_lower d item st = process_key other_lower d item st"
    by (simp add: item process_key_fold)
qed

lemma process_unmapped_ascii:
  assumes "ascii_tag (snd item)"
  shows "process_unmapped unicode_lower P item = process_unmapped other_lower P item"
proof
  fix cat
  obtain n info where item: "item = (n, info)" by (cases item)
  with assms have "lower unicode_lower (get_default info ''tag'' '''')
                     = lower other_lower (get_default info ''tag'' '''')"
    by (simp add: ascii_tag_def lower_ascii)
  then show "process_unmapped unicode_lower P item cat = process_unmapped other_lower P item cat"
    by (simp add: item process_unmapped_def)
qed

lemma generate_api_catalog_ascii:
  assumes "\<forall>p \<in> set d. ascii_tag (snd p)"
  shows "generate_api_catalog unicode_lower mapping d = generate_api_catalog other_lower mapping d"
proof -
  have k: "process_key unicode_lower d = process_key other_lower d"
    using assms by (auto simp: process_key_ascii)
  then have f: "first_pass unicode_lower mapping d = first_pass other_lower mapping d"
    by (simp add: first_pass_def)
  have "fold (process_unmapped unicode_lower P) d cat = fold (process_unmapped other_lower P) d cat"
    for P cat
    using assms by (intro fold_cong) (simp_all add: process_unmapped_ascii)
  with f show ?thesis by (simp add: generate_api_catalog_def second_pass_def)
qed

subsection \<open>Properties of the builder\<close>

text \<open>
  Claim C6, as amended. One match of a key adds to the group of that key, in the
  category of the matched service, one row for each function identifier, in their
  order, with the matched name, a space and the identifier as API name and the
  rewritten schema location; with no function identifier it adds the single row of the
  matched name with the schema location as it is. So one match adds N rows for N
  identifiers (one row for none), and a key with M matches adds M times that many.
\<close>

theorem rows_per_match:
  "dict_get (catalog (process_match unicode_lower key function_ids (matched, info) st)
       (service_category unicode_lower info)) key
     = Some (get_default (catalog st (service_category unicode_lower info)) key []
             @ (if function_ids = [] then
                  [[(''API Name'', matched),
                    (''Url'', get_default info ''Url'' ''''),
                    (''Schema Location'', get_default info ''Schema Location'' ''''),
                    (''tag'', lower unicode_lower (get_default info ''tag'' ''''))]]
                else
                  map (\<lambda>function_id.
                         [(''API Name'', matched @ '' '' @ function_id),
                          (''Url'', get_default info ''Url'' ''''),
                          (''Schema Location'',
                             modified_schema (get_default info ''Schema Location'' '''')
                               function_id),
                          (''tag'', lower unicode_lower (get_default info ''tag'' ''''))])
                      function_ids))
   \<and> total_apis (catalog (process_match unicode_lower key function_ids (matched, info) st))
       = total_apis (catalog st) + (if function_ids = [] then 1 else length function_ids)
   \<and> total_apis (catalog (process_key unicode_lower services_dict (key, function_ids) st))
       = total_apis (catalog st)
         + length (find_matching_services key services_dict)
           * (if function_ids = [] then 1 else length function_ids)"
proof (intro conjI)
  show "dict_get (catalog (process_match unicode_lower key function_ids (matched, info) st)
       (service_category unicode_lower info)) key
     = Some (get_default (catalog st (service_category unicode_lower info)) key []
             @ (if function_ids = [] then
                  [[(''API Name'', matched),
                    (''Url'', get_default info ''Url'' ''''),
                    (''Schema Location'', get_default info ''Schema Location'' ''''),
                    (''tag'', lower unicode_lower (get_default info ''tag'' ''''))]]
                else
                  map (\<lambda>function_id.
                         [(''API Name'', matched @ '' '' @ function_id),
                          (''Url'', get_default info ''Url'' ''''),
                          (''Schema Location'',
                             modified_schema (get_default info ''Schema Location'' '''')
                               function_id),
                          (''tag'', lower unicode_lower (get_default info ''tag'' ''''))])
                      function_ids))"
    by (simp add: process_match_closed extend_group_lookup entries_for_def plain_entry_def
        expanded_entry_def[abs_def])
  show "total_apis (catalog (process_match unicode_lower key function_ids (matched, info) st))
       = total_apis (catalog st) + (if function_ids = [] then 1 else length function_ids)"
    by (simp add: process_match_closed total_apis_extend_group length_entries_for)
  show "total_apis (catalog (process_key unicode_lower services_dict (key, function_ids) st))
       = total_apis (catalog st)
         + length (find_matching_services key services_dict)
           * (if function_ids = [] then 1 else length function_ids)"
    by (simp add: process_key_fold total_fold_match)
qed

text \<open>
  The claim as stated fails: a key with one function identifier and two matches
  yields two rows, not one. All tags are ASCII, so the catalog is the same whatever
  lower-cases text beyond ASCII; the identity stands for it here and below.
\<close>

theorem rows_per_key_counterexample:
  "length (find_matching_services ''A''
     [(''A B'', [(''API Name'', ''A B''), (''tag'', ''rest'')]),
      (''A C'', [(''API Name'', ''A C''), (''tag'', ''rest'')])]) = 2
   \<and> length [''1''] = 1
   \<and> generate_api_catalog id [(''A'', [''1''])]
     [(''A B'', [(''API Name'', ''A B''), (''tag'', ''rest'')]),
      (''A C'', [(''API Name'', ''A C''), (''tag'', ''rest'')])] REST
     = [(''A'', [[(''API Name'', ''A B 1''), (''Url'', ''''),
                  (''Schema Location'', ''''), (''tag'', ''rest'')],
                 [(''API Name'', ''A C 1''), (''Url'', ''''),
                  (''Schema Location'', ''''), (''tag'', ''rest'')]])]
   \<and> total_apis (generate_api_catalog id [(''A'', [''1''])]
     [(''A B'', [(''API Name'', ''A B''), (''tag'', ''rest'')]),
      (''A C'', [(''API Name'', ''A C''), (''tag'', ''rest'')])]) = 2"
  by code_simp

text \<open>
  Claim C7, as amended. Every row of the catalog, of either pass, is made from a
  service of the registry; its url is the url of that service (the empty string when
  the service has none), and its tag is what \<^verbatim>\<open>str.lower()\<close> returns for the tag of that
  service (for the empty string when the service has none): the tag with A to Z turned
  into a to z when it is made of ASCII characters, and the Unicode lower-casing of the
  tag otherwise.
\<close>

theorem url_copied_tag_lowercased:
  "\<forall>g \<in> set (generate_api_catalog unicode_lower mapping services_dict REST
               @ generate_api_catalog unicode_lower mapping services_dict SOAP).
     \<forall>e \<in> set (snd g). \<exists>p \<in> set services_dict.
        from_service unicode_lower p e
        \<and> dict_get e ''Url'' = Some (get_default (snd p) ''Url'' '''')
        \<and> dict_get e ''tag'' = Some (lower unicode_lower (get_default (snd p) ''tag'' ''''))
        \<and> (is_ascii (get_default (snd p) ''tag'' '''') \<longrightarrow>
             dict_get e ''tag'' = Some (map lower_char (get_default (snd p) ''tag'' '''')))
        \<and> (\<not> is_ascii (get_default (snd p) ''tag'' '''') \<longrightarrow>
             dict_get e ''tag'' = Some (unicode_lower (get_default (snd p) ''tag'' '''')))"
proof (intro ballI)
  fix g e
  assume "g \<in> set (generate_api_catalog unicode_lower mapping services_dict REST
               @ generate_api_catalog unicode_lower mapping services_dict SOAP)"
    and "e \<in> set (snd g)"
  with all_rows_generate[of unicode_lower services_dict mapping]
  obtain p where p: "p \<in> set services_dict" "from_service unicode_lower p e"
    unfolding all_rows_def from_registry_def category_cases by blast
  from p(2) have "e = plain_entry unicode_lower (fst p) (snd p)
                   \<or> (\<exists>f. e = expanded_entry unicode_lower (fst p) (snd p) f)"
    using from_service_iff[of unicode_lower "fst p" "snd p" e] by simp
  then have t: "dict_get e ''Url'' = Some (get_default (snd p) ''Url'' '''')
        \<and> dict_get e ''tag'' = Some (lower unicode_lower (get_default (snd p) ''tag'' ''''))"
    by (auto simp: plain_entry_def expanded_entry_def dict_get_def)
  then have "(is_ascii (get_default (snd p) ''tag'' '''') \<longrightarrow>
             dict_get e ''tag'' = Some (map lower_char (get_default (snd p) ''tag'' '''')))
        \<and> (\<not> is_ascii (get_default (snd p) ''tag'' '''') \<longrightarrow>
             dict_get e ''tag'' = Some (unicode_lower (get_default (snd p) ''tag'' '''')))"
    by (simp add: lower_ascii lower_not_ascii)
  with p t show "\<exists>p \<in> set services_dict.
        from_service unicode_lower p e
        \<and> dict_get e ''Url'' = Some (get_default (snd p) ''Url'' '''')
        \<and> dict_get e ''tag'' = Some (lower unicode_lower (get_default (snd p) ''tag'' ''''))
        \<and> (is_ascii (get_default (snd p) ''tag'' '''') \<longrightarrow>
             dict_get e ''tag'' = Some (map lower_char (get_default (snd p) ''tag'' '''')))
        \<and> (\<not> is_ascii (get_default (snd p) ''tag'' '''') \<longrightarrow>
             dict_get e ''tag'' = Some (unicode_lower (get_default (snd p) ''tag'' '''')))"
    by blast
qed

theorem url_copied_tag_lowercased_witness:
  "(''S'', [[(''API Name'', ''S 1''), (''Url'', ''https://x''),
             (''Schema Location'', ''s-1.xsd''), (''tag'', ''rest'')]])
     \<in> set (generate_api_catalog id [(''S'', [''1''])]
               [(''S'', [(''API Name'', ''S''), (''Url'', ''https://x''),
                         (''Schema Location'', ''s.xsd''), (''tag'', ''REST'')])] REST
            @ generate_api_catalog id [(''S'', [''1''])]
               [(''S'', [(''API Name'', ''S''), (''Url'', ''https://x''),
                         (''Schema Location'', ''s.xsd''), (''tag'', ''REST'')])] SOAP)
   \<and> (\<exists>p \<in> set [(''S'', [(''API Name'', ''S''), (''Url'', ''https://x''),
                         (''Schema Location'', ''s.xsd''), (''tag'', ''REST'')])].
        from_service id p [(''API Name'', ''S 1''), (''Url'', ''https://x''),
             (''Schema Location'', ''s-1.xsd''), (''tag'', ''rest'')]
        \<and> dict_get [(''API Name'', ''S 1''), (''Url'', ''https://x''),
             (''Schema Location'', ''s-1.xsd''), (''tag'', ''rest'')] ''Url'' = Some (get_default (snd p) ''Url'' '''')
        \<and> dict_get [(''API Name'', ''S 1''), (''Url'', ''https://x''),
             (''Schema Location'', ''s-1.xsd''), (''tag'', ''rest'')] ''tag'' = Some (lower id (get_default (snd p) ''tag'' ''''))
        \<and> (is_ascii (get_default (snd p) ''tag'' '''') \<longrightarrow>
             dict_get [(''API Name'', ''S 1''), (''Url'', ''https://x''),
             (''Schema Location'', ''s-1.xsd''), (''tag'', ''rest'')] ''tag'' = Some (map lower_char (get_default (snd p) ''tag'' '''')))
        \<and> (\<not> is_ascii (get_default (snd p) ''tag'' '''') \<longrightarrow>
             dict_get [(''API Name'', ''S 1''), (''Url'', ''https://x''),
             (''Schema Location'', ''s-1.xsd''), (''tag'', ''rest'')] ''tag'' = Some (id (get_default (snd p) ''tag'' ''''))))"
proof -
  have m: "(''S'', [[(''API Name'', ''S 1''), (''Url'', ''https://x''),
             (''Schema Location'', ''s-1.xsd''), (''tag'', ''rest'')]])
     \<in> set (generate_api_catalog id [(''S'', [''1''])]
               [(''S'', [(''API Name'', ''S''), (''Url'', ''https://x''),
                         (''Schema Location'', ''s.xsd''), (''tag'', ''REST'')])] REST
            @ generate_api_catalog id [(''S'', [''1''])]
               [(''S'', [(''API Name'', ''S''), (''Url'', ''https://x''),
                         (''Schema Location'', ''s.xsd''), (''tag'', ''REST'')])] SOAP)"
    by code_simp
  have e: "[(''API Name'', ''S 1''), (''Url'', ''https://x''),
             (''Schema Location'', ''s-1.xsd''), (''tag'', ''rest'')]
     \<in> set (snd (''S'', [[(''API Name'', ''S 1''), (''Url'', ''https://x''),
             (''Schema Location'', ''s-1.xsd''), (''tag'', ''rest'')]]))"
    by simp
  from url_copied_tag_lowercased[THEN bspec, OF m, THEN bspec, OF e] m
  show ?thesis by (rule_tac conjI)
qed

text \<open>
  The claim as stated fails: the tags REST and Soap of two services come out as rest
  and soap in their rows.
\<close>

theorem tag_copied_unmodified_counterexample:
  "generate_api_catalog id [(''S'', [''1''])]
     [(''S'', [(''API Name'', ''S''), (''Url'', ''https://x''),
               (''Schema Location'', ''s.xsd''), (''tag'', ''REST'')]),
      (''T'', [(''API Name'', ''T''), (''Url'', ''https://y''), (''tag'', ''Soap'')])] REST
     = [(''S'', [[(''API Name'', ''S 1''), (''Url'', ''https://x''),
                  (''Schema Location'', ''s-1.xsd''), (''tag'', ''rest'')]])]
   \<and> generate_api_catalog id [(''S'', [''1''])]
     [(''S'', [(''API Name'', ''S''), (''Url'', ''https://x''),
               (''Schema Location'', ''s.xsd''), (''tag'', ''REST'')]),
      (''T'', [(''API Name'', ''T''), (''Url'', ''https://y''), (''tag'', ''Soap'')])] SOAP
     = [(''T'', [[(''API Name'', ''T''), (''Url'', ''https://y''),
                  (''Schema Location'', ''''), (''tag'', ''soap'')]])]
   \<and> dict_get [(''API Name'', ''S''), (''Url'', ''https://x''),
               (''Schema Location'', ''s.xsd''), (''tag'', ''REST'')] ''tag'' = Some ''REST''
   \<and> dict_get [(''API Name'', ''T''), (''Url'', ''https://y''), (''tag'', ''Soap'')] ''tag''
       = Some ''Soap''
   \<and> ''rest'' \<noteq> ''REST'' \<and> ''soap'' \<noteq> ''Soap''"
  by code_simp

text \<open>
  Claim C4, as amended. The catalog is exactly what the emissions of the two passes
  build, one row for each emission, and a row belongs to the service its emission is
  made for (a row made for another service may have the same content). For a registry
  with distinct names, each service is handled by one pass only, never both. It is in
  the processed set exactly when some key of the mapping matches it. If so, the first
  pass emits its rows under every key that matches it, so under more than one group
  key when several keys match it, and under no other group, and the second pass emits
  nothing for it. If no key matches it, the first pass emits nothing for it and makes
  no group under its name, and the whole run has exactly one emission for it: its
  plain row, in the second pass, under its own name and in its category, where it is
  the only row of that group.
\<close>

theorem each_service_in_one_pass:
  assumes "distinct (map fst services_dict)" and "(name, info) \<in> set services_dict"
  shows "generate_api_catalog unicode_lower mapping services_dict
           = replay (emissions unicode_lower mapping services_dict) (\<lambda>_. [])
    \<and> total_apis (generate_api_catalog unicode_lower mapping services_dict)
        = length (emissions unicode_lower mapping services_dict)
    \<and> (name \<in> processed_services (first_pass unicode_lower mapping services_dict)
          \<longleftrightarrow> (\<exists>item \<in> set mapping.
                 (name, info) \<in> set (find_matching_services (fst item) services_dict)))
    \<and> (\<forall>t \<in> set (first_pass_emissions unicode_lower mapping services_dict).
          origin t = (name, info) \<longrightarrow>
          (\<exists>item \<in> set mapping.
             group_key t = fst item
             \<and> (name, info) \<in> set (find_matching_services (fst item) services_dict)))
    \<and> (\<forall>item \<in> set mapping.
          (name, info) \<in> set (find_matching_services (fst item) services_dict) \<longrightarrow>
          (\<exists>pre post. first_pass_emissions unicode_lower mapping services_dict
             = pre @ match_emissions unicode_lower (fst item) (snd item) (name, info) @ post)
          \<and> has_rows (generate_api_catalog unicode_lower mapping services_dict)
              (service_category unicode_lower info) (fst item)
              (entries_for unicode_lower name info (snd item)))
    \<and> (name \<in> processed_services (first_pass unicode_lower mapping services_dict) \<longrightarrow>
          filter (\<lambda>t. origin t = (name, info))
            (second_pass_emissions unicode_lower
               (processed_services (first_pass unicode_lower mapping services_dict))
               services_dict) = []
          \<and> process_unmapped unicode_lower
              (processed_services (first_pass unicode_lower mapping services_dict))
              (name, info) cat = cat)
    \<and> (name \<notin> processed_services (first_pass unicode_lower mapping services_dict) \<longrightarrow>
          filter (\<lambda>t. origin t = (name, info)) (emissions unicode_lower mapping services_dict)
            = [\<lparr>origin = (name, info),
                 target_category = service_category unicode_lower info,
                 group_key = name,
                 emitted_row = plain_entry unicode_lower name info\<rparr>]
          \<and> (\<forall>c. dict_get (catalog (first_pass unicode_lower mapping services_dict) c) name
                   = None)
          \<and> (\<forall>c. dict_get (generate_api_catalog unicode_lower mapping services_dict c) name
                   = (if c = service_category unicode_lower info
                      then Some [plain_entry unicode_lower name info] else None)))"
proof (intro conjI)
  show "generate_api_catalog unicode_lower mapping services_dict
           = replay (emissions unicode_lower mapping services_dict) (\<lambda>_. [])"
    by (rule generate_replay)
  show "total_apis (generate_api_catalog unicode_lower mapping services_dict)
        = length (emissions unicode_lower mapping services_dict)"
    by (simp add: generate_replay total_apis_replay total_apis_empty)
  show "name \<in> processed_services (first_pass unicode_lower mapping services_dict)
          \<longleftrightarrow> (\<exists>item \<in> set mapping.
                 (name, info) \<in> set (find_matching_services (fst item) services_dict))"
    using assms by (rule processed_iff)
  show "\<forall>t \<in> set (first_pass_emissions unicode_lower mapping services_dict).
          origin t = (name, info) \<longrightarrow>
          (\<exists>item \<in> set mapping.
             group_key t = fst item
             \<and> (name, info) \<in> set (find_matching_services (fst item) services_dict))"
    using first_pass_emission_source[of _ unicode_lower mapping services_dict] by metis
  show "\<forall>item \<in> set mapping.
          (name, info) \<in> set (find_matching_services (fst item) services_dict) \<longrightarrow>
          (\<exists>pre post. first_pass_emissions unicode_lower mapping services_dict
             = pre @ match_emissions unicode_lower (fst item) (snd item) (name, info) @ post)
          \<and> has_rows (generate_api_catalog unicode_lower mapping services_dict)
              (service_category unicode_lower info) (fst item)
              (entries_for unicode_lower name info (snd item))"
    by (simp add: expanded_in_final first_pass_emissions_contain)
  show "name \<in> processed_services (first_pass unicode_lower mapping services_dict) \<longrightarrow>
          filter (\<lambda>t. origin t = (name, info))
            (second_pass_emissions unicode_lower
               (processed_services (first_pass unicode_lower mapping services_dict))
               services_dict) = []
          \<and> process_unmapped unicode_lower
              (processed_services (first_pass unicode_lower mapping services_dict))
              (name, info) cat = cat"
    using assms by (simp add: second_pass_emissions_of process_unmapped_closed)
  show "name \<notin> processed_services (first_pass unicode_lower mapping services_dict) \<longrightarrow>
          filter (\<lambda>t. origin t = (name, info)) (emissions unicode_lower mapping services_dict)
            = [\<lparr>origin = (name, info),
                 target_category = service_category unicode_lower info,
                 group_key = name,
                 emitted_row = plain_entry unicode_lower name info\<rparr>]
          \<and> (\<forall>c. dict_get (catalog (first_pass unicode_lower mapping services_dict) c) name
                   = None)
          \<and> (\<forall>c. dict_get (generate_api_catalog unicode_lower mapping services_dict c) name
                   = (if c = service_category unicode_lower info
                      then Some [plain_entry unicode_lower name info] else None))"
    using assms
    by (simp add: emissions_def first_pass_emissions_of_unprocessed second_pass_emissions_of
        unprocessed_no_group standalone_in_final)
qed

theorem each_service_in_one_pass_witness:
  "distinct (map fst [(''A'', [(''API Name'', ''A'')]), (''A B'', [(''API Name'', ''A B'')])])
   \<and> (''A B'', [(''API Name'', ''A B'')])
        \<in> set [(''A'', [(''API Name'', ''A'')]), (''A B'', [(''API Name'', ''A B'')])]
   \<and> ''A B'' \<notin> processed_services (first_pass id [(''A'', [''B''])]
        [(''A'', [(''API Name'', ''A'')]), (''A B'', [(''API Name'', ''A B'')])])
   \<and> filter (\<lambda>t. origin t = (''A B'', [(''API Name'', ''A B'')]))
        (emissions id [(''A'', [''B''])]
           [(''A'', [(''API Name'', ''A'')]), (''A B'', [(''API Name'', ''A B'')])])
       = [\<lparr>origin = (''A B'', [(''API Name'', ''A B'')]),
            target_category = service_category id [(''API Name'', ''A B'')],
            group_key = ''A B'',
            emitted_row = plain_entry id ''A B'' [(''API Name'', ''A B'')]\<rparr>]
   \<and> ''A'' \<in> processed_services (first_pass id [(''A'', [''B''])]
        [(''A'', [(''API Name'', ''A'')]), (''A B'', [(''API Name'', ''A B'')])])
   \<and> has_rows (generate_api_catalog id [(''A'', [''B''])]
        [(''A'', [(''API Name'', ''A'')]), (''A B'', [(''API Name'', ''A B'')])])
        (service_category id [(''API Name'', ''A'')]) ''A''
        (entries_for id ''A'' [(''API Name'', ''A'')] [''B''])
   \<and> filter (\<lambda>t. origin t = (''A'', [(''API Name'', ''A'')]))
        (second_pass_emissions id
           (processed_services (first_pass id [(''A'', [''B''])]
              [(''A'', [(''API Name'', ''A'')]), (''A B'', [(''API Name'', ''A B'')])]))
           [(''A'', [(''API Name'', ''A'')]), (''A B'', [(''API Name'', ''A B'')])]) = []"
proof -
  let ?D = "[(''A'', [(''API Name'', ''A'')]), (''A B'', [(''API Name'', ''A B'')])]"
  let ?M = "[(''A'', [''B''])]"
  have h: "distinct (map fst ?D)" by simp
  have z: "(''A B'', [(''API Name'', ''A B'')]) \<in> set ?D" by simp
  have a: "(''A'', [(''API Name'', ''A'')]) \<in> set ?D" by simp
  have f1: "find_matching_services ''A'' ?D = [(''A'', [(''API Name'', ''A'')])]" by code_simp
  note tz = each_service_in_one_pass[OF h z, of id ?M]
  note ta = each_service_in_one_pass[OF h a, of id ?M]
  from tz[THEN conjunct2, THEN conjunct2, THEN conjunct1] f1
  have z1: "''A B'' \<notin> processed_services (first_pass id ?M ?D)" by simp
  from tz[THEN conjunct2, THEN conjunct2, THEN conjunct2, THEN conjunct2, THEN conjunct2,
          THEN conjunct2] z1
  have z2: "filter (\<lambda>t. origin t = (''A B'', [(''API Name'', ''A B'')])) (emissions id ?M ?D)
       = [\<lparr>origin = (''A B'', [(''API Name'', ''A B'')]),
            target_category = service_category id [(''API Name'', ''A B'')],
            group_key = ''A B'',
            emitted_row = plain_entry id ''A B'' [(''API Name'', ''A B'')]\<rparr>]"
    by blast
  from ta[THEN conjunct2, THEN conjunct2, THEN conjunct1] f1
  have a1: "''A'' \<in> processed_services (first_pass id ?M ?D)" by simp
  from ta[THEN conjunct2, THEN conjunct2, THEN conjunct2, THEN conjunct2, THEN conjunct1] f1
  have a2: "has_rows (generate_api_catalog id ?M ?D)
        (service_category id [(''API Name'', ''A'')]) ''A''
        (entries_for id ''A'' [(''API Name'', ''A'')] [''B''])"
    by simp
  from ta[THEN conjunct2, THEN conjunct2, THEN conjunct2, THEN conjunct2, THEN conjunct2,
          THEN conjunct1] a1
  have a3: "filter (\<lambda>t. origin t = (''A'', [(''API Name'', ''A'')]))
        (second_pass_emissions id (processed_services (first_pass id ?M ?D)) ?D) = []"
    by blast
  from h z z1 z2 a1 a2 a3 show ?thesis by (intro conjI)
qed

text \<open>
  The claim as stated fails: the keys A and A B both match the one service A B C by
  prefix, validation passes, and the service has a row under both group keys.
\<close>

theorem one_group_per_service_counterexample:
  "validate_keys [(''A'', []), (''A B'', [])]
     [(''A B C'', [(''API Name'', ''A B C''), (''Url'', ''u''),
                   (''Schema Location'', ''s.xsd''), (''tag'', ''soap'')])]
   \<and> generate_api_catalog id [(''A'', []), (''A B'', [])]
     [(''A B C'', [(''API Name'', ''A B C''), (''Url'', ''u''),
                   (''Schema Location'', ''s.xsd''), (''tag'', ''soap'')])] SOAP
     = [(''A'', [[(''API Name'', ''A B C''), (''Url'', ''u''),
                  (''Schema Location'', ''s.xsd''), (''tag'', ''soap'')]]),
        (''A B'', [[(''API Name'', ''A B C''), (''Url'', ''u''),
                    (''Schema Location'', ''s.xsd''), (''tag'', ''soap'')]])]
   \<and> generate_api_catalog id [(''A'', []), (''A B'', [])]
     [(''A B C'', [(''API Name'', ''A B C''), (''Url'', ''u''),
                   (''Schema Location'', ''s.xsd''), (''tag'', ''soap'')])] REST = []"
  by code_simp

text \<open>
  Claim C8. For a registry with distinct names and any mapping, whether it passes
  validation or not, the final catalog refers to every service of the registry, every
  row of the catalog is made from a service of the registry, and the number of
  services of the registry that the catalog refers to is the size of the registry.
\<close>

theorem every_service_in_catalog:
  assumes "distinct (map fst services_dict)"
  shows "(\<forall>p \<in> set services_dict. references unicode_lower (generate_api_catalog unicode_lower mapping services_dict) p)
    \<and> (\<forall>g \<in> set (generate_api_catalog unicode_lower mapping services_dict REST
                   @ generate_api_catalog unicode_lower mapping services_dict SOAP).
         \<forall>e \<in> set (snd g). \<exists>p \<in> set services_dict. from_service unicode_lower p e)
    \<and> card {p \<in> set services_dict. references unicode_lower (generate_api_catalog unicode_lower mapping services_dict) p}
        = length services_dict"
proof -
  have a: "\<forall>p \<in> set services_dict. references unicode_lower (generate_api_catalog unicode_lower mapping services_dict) p"
    using assms service_referenced by auto
  have b: "\<forall>g \<in> set (generate_api_catalog unicode_lower mapping services_dict REST
                   @ generate_api_catalog unicode_lower mapping services_dict SOAP).
         \<forall>e \<in> set (snd g). \<exists>p \<in> set services_dict. from_service unicode_lower p e"
    using all_rows_generate[of unicode_lower services_dict mapping]
    unfolding all_rows_def from_registry_def category_cases by blast
  from a have "{p \<in> set services_dict. references unicode_lower (generate_api_catalog unicode_lower mapping services_dict) p}
                 = set services_dict" by auto
  moreover from assms have "distinct services_dict" by (rule distinct_map[THEN iffD1, THEN conjunct1])
  ultimately have c: "card {p \<in> set services_dict.
                       references unicode_lower (generate_api_catalog unicode_lower mapping services_dict) p}
        = length services_dict"
    by (simp add: distinct_card)
  from a b c show ?thesis by blast
qed

theorem every_service_in_catalog_witness:
  "distinct (map fst [(''S'', [(''API Name'', ''S''), (''tag'', ''REST'')]),
                      (''T'', [(''API Name'', ''T''), (''tag'', ''Soap'')])])
   \<and> references id (generate_api_catalog id [(''S'', [''1''])]
                  [(''S'', [(''API Name'', ''S''), (''tag'', ''REST'')]),
                   (''T'', [(''API Name'', ''T''), (''tag'', ''Soap'')])])
        (''S'', [(''API Name'', ''S''), (''tag'', ''REST'')])
   \<and> references id (generate_api_catalog id [(''S'', [''1''])]
                  [(''S'', [(''API Name'', ''S''), (''tag'', ''REST'')]),
                   (''T'', [(''API Name'', ''T''), (''tag'', ''Soap'')])])
        (''T'', [(''API Name'', ''T''), (''tag'', ''Soap'')])"
proof -
  have h: "distinct (map fst [(''S'', [(''API Name'', ''S''), (''tag'', ''REST'')]),
                      (''T'', [(''API Name'', ''T''), (''tag'', ''Soap'')])])"
    by simp
  from every_service_in_catalog[OF h, of id "[(''S'', [''1''])]", THEN conjunct1] h
  show ?thesis by simp
qed

text \<open>
  Claim C9. For the registry made of the single service Get LOV (url https://x, schema
  location s/lov.xsd, tag rest) and the mapping of Get LOV to the identifier 47,
  validation passes and the catalog has, under REST, the group Get LOV with the one row
  Get LOV 47, https://x, s/lov-47.xsd, rest, and nothing under SOAP.
\<close>

theorem get_lov_scenario:
  "generate_api_catalog unicode_lower [(''Get LOV'', [''47''])]
     (convert_services_to_dict
        [[(''API Name'', ''Get LOV''), (''Url'', ''https://x''),
          (''Schema Location'', ''s/lov.xsd''), (''tag'', ''rest'')]]) REST
     = [(''Get LOV'',
         [[(''API Name'', ''Get LOV 47''), (''Url'', ''https://x''),
           (''Schema Location'', ''s/lov-47.xsd''), (''tag'', ''rest'')]])]
   \<and> generate_api_catalog unicode_lower [(''Get LOV'', [''47''])]
     (convert_services_to_dict
        [[(''API Name'', ''Get LOV''), (''Url'', ''https://x''),
          (''Schema Location'', ''s/lov.xsd''), (''tag'', ''rest'')]]) SOAP = []
   \<and> validate_keys [(''Get LOV'', [''47''])]
     (convert_services_to_dict
        [[(''API Name'', ''Get LOV''), (''Url'', ''https://x''),
          (''Schema Location'', ''s/lov.xsd''), (''tag'', ''rest'')]])"
  by code_simp

text \<open>
  Claim C10. The registry has an entry under \<open>X\<close> exactly when \<open>X\<close> is not empty and
  some element of the array has \<open>X\<close> as its API name, and the entry is the last such
  element. An element whose API name is absent or empty is no value of the registry,
  every pair the matcher returns on the registry is an element of the array under its
  own, non-empty API name, and every row of a catalog built on the registry is made
  from such an element.
\<close>

theorem registry_keeps_last_named_element:
  "dict_get (convert_services_to_dict services_array) X
     = (if X = [] then None
        else find (\<lambda>service. dict_get service ''API Name'' = Some X) (rev services_array))
   \<and> (\<forall>service \<in> set services_array.
         dict_get service ''API Name'' = None \<or> dict_get service ''API Name'' = Some []
         \<longrightarrow> service \<notin> snd ` set (convert_services_to_dict services_array))
   \<and> (\<forall>(name, service) \<in> set (find_matching_services key
                                   (convert_services_to_dict services_array)).
         service \<in> set services_array \<and> dict_get service ''API Name'' = Some name
         \<and> name \<noteq> [])
   \<and> (\<forall>g \<in> set (generate_api_catalog unicode_lower mapping (convert_services_to_dict services_array) REST
                   @ generate_api_catalog unicode_lower mapping (convert_services_to_dict services_array) SOAP).
         \<forall>e \<in> set (snd g). \<exists>p \<in> set (convert_services_to_dict services_array).
            from_service unicode_lower p e \<and> snd p \<in> set services_array
            \<and> dict_get (snd p) ''API Name'' = Some (fst p) \<and> fst p \<noteq> [])"
proof -
  have a: "dict_get (convert_services_to_dict services_array) X
     = (if X = [] then None
        else find (\<lambda>service. dict_get service ''API Name'' = Some X) (rev services_array))"
    by (simp add: convert_services_to_dict_def dict_get_def[of "fold add_service services_array []"]
          convert_lookup_aux split: option.splits)
  have b: "\<forall>service \<in> set services_array.
         dict_get service ''API Name'' = None \<or> dict_get service ''API Name'' = Some []
         \<longrightarrow> service \<notin> snd ` set (convert_services_to_dict services_array)"
    using convert_members by fastforce
  have c: "\<forall>(name, service) \<in> set (find_matching_services key
                                   (convert_services_to_dict services_array)).
         service \<in> set services_array \<and> dict_get service ''API Name'' = Some name
         \<and> name \<noteq> []"
    using convert_members matches_subset by fastforce
  have d: "\<forall>g \<in> set (generate_api_catalog unicode_lower mapping (convert_services_to_dict services_array) REST
                   @ generate_api_catalog unicode_lower mapping (convert_services_to_dict services_array) SOAP).
         \<forall>e \<in> set (snd g). \<exists>p \<in> set (convert_services_to_dict services_array).
            from_service unicode_lower p e \<and> snd p \<in> set services_array
            \<and> dict_get (snd p) ''API Name'' = Some (fst p) \<and> fst p \<noteq> []"
  proof (intro ballI)
    fix g e
    assume "g \<in> set (generate_api_catalog unicode_lower mapping (convert_services_to_dict services_array) REST
                   @ generate_api_catalog unicode_lower mapping (convert_services_to_dict services_array) SOAP)"
      and "e \<in> set (snd g)"
    with all_rows_generate[of unicode_lower "convert_services_to_dict services_array" mapping]
    obtain p where p: "p \<in> set (convert_services_to_dict services_array)" "from_service unicode_lower p e"
      unfolding all_rows_def from_registry_def category_cases by blast
    from p(1) have "snd p \<in> set services_array \<and> dict_get (snd p) ''API Name'' = Some (fst p)
                     \<and> fst p \<noteq> []"
      using convert_members[of "fst p" "snd p" services_array] by simp
    with p show "\<exists>p \<in> set (convert_services_to_dict services_array).
            from_service unicode_lower p e \<and> snd p \<in> set services_array
            \<and> dict_get (snd p) ''API Name'' = Some (fst p) \<and> fst p \<noteq> []"
      by blast
  qed
  from a b c d show ?thesis by blast
qed

theorem registry_keeps_last_named_element_witness:
  "dict_get (convert_services_to_dict
       [[(''API Name'', ''A''), (''Url'', ''u1'')], [(''Url'', ''u2'')],
        [(''API Name'', ''''), (''Url'', ''u3'')], [(''API Name'', ''A''), (''Url'', ''u4'')]]) ''A''
     = Some [(''API Name'', ''A''), (''Url'', ''u4'')]
   \<and> [(''Url'', ''u2'')] \<notin> snd ` set (convert_services_to_dict
       [[(''API Name'', ''A''), (''Url'', ''u1'')], [(''Url'', ''u2'')],
        [(''API Name'', ''''), (''Url'', ''u3'')], [(''API Name'', ''A''), (''Url'', ''u4'')]])
   \<and> [(''API Name'', ''''), (''Url'', ''u3'')] \<notin> snd ` set (convert_services_to_dict
       [[(''API Name'', ''A''), (''Url'', ''u1'')], [(''Url'', ''u2'')],
        [(''API Name'', ''''), (''Url'', ''u3'')], [(''API Name'', ''A''), (''Url'', ''u4'')]])
   \<and> find_matching_services ''A'' (convert_services_to_dict
       [[(''API Name'', ''A''), (''Url'', ''u1'')], [(''Url'', ''u2'')],
        [(''API Name'', ''''), (''Url'', ''u3'')], [(''API Name'', ''A''), (''Url'', ''u4'')]])
     = [(''A'', [(''API Name'', ''A''), (''Url'', ''u4'')])]"
  using registry_keeps_last_named_element
    [of "[[(''API Name'', ''A''), (''Url'', ''u1'')], [(''Url'', ''u2'')],
        [(''API Name'', ''''), (''Url'', ''u3'')], [(''API Name'', ''A''), (''Url'', ''u4'')]]"
        "''A''" "''A''" id "[]"]
  by (simp add: dict_get_def convert_services_to_dict_def find_matching_services_def add_service_def)

end
